theory Spec2Isabelle
  imports Main "HOL-Library.Word"
begin

unbundle bit_operations_syntax

section \<open>The nvram utility of powerpc-utils (src/nvram.c)\<close>

text \<open>
  A shallow embedding of the binary-format engine of \<^verbatim>\<open>nvram.c\<close>: the header checksum,
  the partition walk, the lookup by signature and name, the rewrite of a name=value
  record, and the VPD and error-log decoders.

  Conventions of the embedding.
  \<^item> A C buffer is a \<open>byte list\<close>; a pointer into it is a \<open>nat\<close> offset. An access outside
    the buffer is undefined behaviour in C; here it ends the run with a \<open>fault\<close>.
  \<^item> A function whose loop may run forever returns an \<open>option\<close>: \<open>None\<close> is "does not
    return".
  \<^item> \<^verbatim>\<open>err_msg\<close> and \<^verbatim>\<open>warn_msg\<close> calls are collected as a list of \<open>msg\<close> values, one
    constructor per call site.
  \<^item> The target is big-endian PowerPC, where \<^verbatim>\<open>char\<close> is unsigned: a 16-bit field read
    through a C pointer is the big-endian value of its two bytes.
  \<^item> The global \<^verbatim>\<open>verbose\<close> is 0 (its initial value), so the progress lines printed
    under it are absent.
\<close>

type_synonym byte = "8 word"

datatype fault =
    OutOfBoundsRead     \<comment> \<open>a read outside the buffer\<close>
  | BufferOverflow      \<comment> \<open>a write outside the destination buffer\<close>
  | NullPointer         \<comment> \<open>arithmetic on, or through, a null pointer\<close>

datatype msg =
    W_checksum_should_be byte         \<comment> \<open>"this partition checksum should be %02x!"\<close>
  | E_no_partition                    \<comment> \<open>"there is no \"%s\" partition!"\<close>
  | E_var_does_not_exist              \<comment> \<open>"cannot update %s ... The config var does not exist ..."\<close>
  | E_no_room_for_var                 \<comment> \<open>"cannot update config var to ... not enough room ..."\<close>
  | E_partition_corrupt               \<comment> \<open>"the \"%s\" partition appears to be corrupt"\<close>
  | E_no_room_for_tail                \<comment> \<open>"cannot update open firmware config var to ... not enough room ..."\<close>
  | E_could_not_find_on_device        \<comment> \<open>"could not find %s partition in %s"\<close>
  | E_invalid_read                    \<comment> \<open>"Invalid read from %s: %s"\<close>
  | E_seek_error                      \<comment> \<open>"seek error in file %s: %s"\<close>
  | E_could_not_seek_to_partition     \<comment> \<open>"could not seek to %s partition"\<close>
  | E_only_wrote int nat              \<comment> \<open>"only wrote %d bytes ... expected to write %d bytes"\<close>
  | E_no_vpd_partition                \<comment> \<open>"there is no ibm,vpd partition!"\<close>
  | W_unknown_descriptor byte         \<comment> \<open>"found unknown descriptor byte 0x%x"\<close>
  | E_no_errlog_partition             \<comment> \<open>"there is no ibm,err-log partition!"\<close>
  | E_corrupt_errlog                  \<comment> \<open>"Corrupt ibm,err-log partition in nvram"\<close>

subsection \<open>Partition headers\<close>

text \<open>
  Modelled from the spec: \<^verbatim>\<open>struct partition_header\<close> and \<^verbatim>\<open>NVRAM_BLOCK_SIZE\<close> are declared
  in \<^verbatim>\<open>nvram.h\<close>, which is not among the sources. The spec (section 3) gives the layout:
  signature (1 byte), checksum (1 byte), length (2 bytes, big-endian, in blocks of 16
  bytes), name (12 bytes); 16 bytes in all, which is also what
  \<^verbatim>\<open>nvram_parse_partitions\<close> tests with \<^verbatim>\<open>sizeof\<close>.
\<close>

record partition_header =
  ph_signature :: byte
  ph_checksum :: byte
  ph_length :: "16 word"
  ph_name :: "byte list"

definition NVRAM_BLOCK_SIZE :: nat where
  "NVRAM_BLOCK_SIZE = 16"

definition be16 :: "byte \<Rightarrow> byte \<Rightarrow> 16 word" where
  "be16 hi lo = push_bit 8 (ucast hi) OR ucast lo"

text \<open>The header that a \<^verbatim>\<open>struct partition_header *\<close> at offset \<open>off\<close> of buffer \<open>d\<close> denotes;
  \<open>None\<close> when its 16 bytes are not all inside the buffer.\<close>

definition header_at :: "byte list \<Rightarrow> nat \<Rightarrow> partition_header option" where
  "header_at d off =
     (if off + 16 \<le> length d
      then Some \<lparr>ph_signature = d ! off, ph_checksum = d ! (off + 1),
                 ph_length = be16 (d ! (off + 2)) (d ! (off + 3)),
                 ph_name = take 12 (drop (off + 4) d)\<rparr>
      else None)"

subsection \<open>checksum\<close>

text \<open>\<^verbatim>\<open>sp[i]\<close> for \<^verbatim>\<open>unsigned short *sp = (unsigned short *)p->name\<close>.\<close>

definition name_word :: "partition_header \<Rightarrow> nat \<Rightarrow> 16 word" where
  "name_word p i = be16 (ph_name p ! (2 * i)) (ph_name p ! (2 * i + 1))"

text \<open>The first assignment to \<^verbatim>\<open>c_sum\<close> (an \<^verbatim>\<open>unsigned int\<close>).\<close>

definition header_sum :: "partition_header \<Rightarrow> 32 word" where
  "header_sum p =
     ucast (ph_signature p) + ucast (ph_length p)
       + ucast (name_word p 0) + ucast (name_word p 1) + ucast (name_word p 2)
       + ucast (name_word p 3) + ucast (name_word p 4) + ucast (name_word p 5)"

definition checksum :: "partition_header \<Rightarrow> byte" where
  "checksum p =
     (let c_sum = header_sum p;
          c_sum = ((c_sum AND 0xffff) + drop_bit 16 c_sum) AND 0xffff;
          c_sum2 = drop_bit 8 c_sum + push_bit 8 c_sum;
          c_sum = drop_bit 8 (c_sum + c_sum2) AND 0xff
      in ucast c_sum)"

text \<open>The same sum over the natural numbers.\<close>

definition header_sum_nat :: "partition_header \<Rightarrow> nat" where
  "header_sum_nat p =
     unat (ph_signature p) + unat (ph_length p)
       + unat (name_word p 0) + unat (name_word p 1) + unat (name_word p 2)
       + unat (name_word p 3) + unat (name_word p 4) + unat (name_word p 5)"

text \<open>
  The checksum in the words of the spec (section 4.1), read literally: the sum; its bits
  above position 16 added once to its low 16 bits; then the high byte and the low byte
  of that 16-bit value added together and masked to one byte.
\<close>

definition checksum_spec :: "partition_header \<Rightarrow> nat" where
  "checksum_spec p =
     (let s = header_sum_nat p;
          f = (s mod 65536 + s div 65536) mod 65536
      in (f div 256 + f mod 256) mod 256)"

subsection \<open>nvram_parse_partitions\<close>

text \<open>
  Modelled from the spec: \<^verbatim>\<open>struct nvram\<close> is declared in \<^verbatim>\<open>nvram.h\<close>, which is not among the
  sources. The code uses its fields \<^verbatim>\<open>data\<close>, \<^verbatim>\<open>nbytes\<close>, \<^verbatim>\<open>parts\<close> and \<^verbatim>\<open>nparts\<close> (and
  \<^verbatim>\<open>fd\<close>, \<^verbatim>\<open>filename\<close>, modelled apart). Following the spec (section 3), the table
  \<^verbatim>\<open>parts[0..nparts)\<close> is an ordered sequence of entries, here the offsets of the headers in
  \<open>data\<close>; \<^verbatim>\<open>nparts\<close> is its length.
\<close>

record nvram =
  data :: "byte list"
  nbytes :: nat
  parts :: "nat list"

text \<open>The \<^verbatim>\<open>while (p_start < nvram_end)\<close> loop. Nothing in it makes \<open>p_start\<close> grow when
  the length field is 0, so it is a partial function.\<close>

partial_function (option) parse_loop ::
  "byte list \<Rightarrow> nat \<Rightarrow> nat \<Rightarrow> nat list \<Rightarrow> msg list \<Rightarrow> (fault + nat list \<times> msg list) option" where
  "parse_loop d nb p_start ps ms =
     (if p_start < nb then
        (case header_at d p_start of
           None \<Rightarrow> Some (Inl OutOfBoundsRead)
         | Some phead \<Rightarrow>
             let c_sum = checksum phead;
                 ms' = (if c_sum \<noteq> ph_checksum phead then ms @ [W_checksum_should_be c_sum] else ms)
             in parse_loop d nb (p_start + unat (ph_length phead) * NVRAM_BLOCK_SIZE)
                  (ps @ [p_start]) ms')
      else Some (Inr (ps, ms)))"

declare parse_loop.simps [code]

text \<open>The result is the return value (always 0), the updated structure and the
  warnings.\<close>

definition nvram_parse_partitions :: "nvram \<Rightarrow> (fault + int \<times> nvram \<times> msg list) option" where
  "nvram_parse_partitions nv =
     (case parse_loop (data nv) (nbytes nv) 0 (parts nv) [] of
        None \<Rightarrow> None
      | Some (Inl f) \<Rightarrow> Some (Inl f)
      | Some (Inr (ps, ms)) \<Rightarrow> Some (Inr (0, nv\<lparr>parts := ps\<rparr>, ms)))"

text \<open>A buffer synthesized from partitions: each partition is its 16-byte header followed
  by its payload, and the length field counts its 16-byte blocks.\<close>

definition wf_partition :: "byte list \<Rightarrow> bool" where
  "wf_partition bs =
     (case header_at bs 0 of
        None \<Rightarrow> False
      | Some h \<Rightarrow> 1 \<le> unat (ph_length h) \<and> length bs = unat (ph_length h) * 16)"

fun part_offsets :: "nat \<Rightarrow> byte list list \<Rightarrow> nat list" where
  "part_offsets off [] = []"
| "part_offsets off (b # bs) = off # part_offsets (off + length b) bs"

definition checksum_warning :: "byte list \<Rightarrow> msg list" where
  "checksum_warning bs =
     (case header_at bs 0 of
        None \<Rightarrow> []
      | Some h \<Rightarrow> if checksum h \<noteq> ph_checksum h then [W_checksum_should_be (checksum h)] else [])"

text \<open>Two partitions, of one and of two blocks; the second stores checksum 0 where 0x52
  is computed.\<close>

definition two_partitions :: "byte list list" where
  "two_partitions = [[0x70, 0x71, 0, 1] @ replicate 12 0, [0x50, 0, 0, 2] @ replicate 28 0]"

subsection \<open>nvram_find_partition\<close>

text \<open>\<^verbatim>\<open>strncmp(s1, s2, n)\<close> on the bytes that start at the two pointers: the difference of
  the first pair of bytes that differ, 0 when a null byte or the bound is reached first;
  \<open>None\<close> when a buffer ends before that. A string argument \<open>s\<close> of the program is the
  buffer \<open>s @ [0]\<close>.\<close>

fun strncmp :: "byte list \<Rightarrow> byte list \<Rightarrow> nat \<Rightarrow> int option" where
  "strncmp s1 s2 0 = Some 0"
| "strncmp (c1 # s1) (c2 # s2) (Suc n) =
     (if c1 \<noteq> c2 then Some (uint c1 - uint c2)
      else if c1 = 0 then Some 0
      else strncmp s1 s2 n)"
| "strncmp s1 s2 (Suc n) = None"

text \<open>The first loop of \<^verbatim>\<open>nvram_find_partition\<close>: the index of \<open>start\<close> in the table, or
  \<open>nparts\<close> when it is not there.\<close>

fun index_of_start :: "nat list \<Rightarrow> nat \<Rightarrow> nat" where
  "index_of_start [] start = 0"
| "index_of_start (x # xs) start = (if x = start then 0 else Suc (index_of_start xs start))"

text \<open>The second loop, over the entries from index \<open>i\<close> on. The signature 0 and the
  name \<^verbatim>\<open>NULL\<close> (\<open>None\<close>) are not compared.\<close>

fun search_parts :: "byte list \<Rightarrow> byte \<Rightarrow> byte list option \<Rightarrow> nat list \<Rightarrow> fault + nat option" where
  "search_parts d signature name [] = Inr None"
| "search_parts d signature name (ph # rest) =
     (case header_at d ph of
        None \<Rightarrow> Inl OutOfBoundsRead
      | Some phead \<Rightarrow>
          if signature = 0 \<or> signature = ph_signature phead then
            (case name of
               None \<Rightarrow> Inr (Some ph)
             | Some nm \<Rightarrow>
                 (case strncmp (nm @ [0]) (ph_name phead) 12 of
                    None \<Rightarrow> Inl OutOfBoundsRead
                  | Some r \<Rightarrow> if r = 0 then Inr (Some ph) else search_parts d signature name rest))
          else search_parts d signature name rest)"

definition nvram_find_partition ::
  "nvram \<Rightarrow> byte \<Rightarrow> byte list option \<Rightarrow> nat option \<Rightarrow> fault + nat option" where
  "nvram_find_partition nv signature name start =
     (let i = (case start of None \<Rightarrow> 0 | Some s \<Rightarrow> index_of_start (parts nv) s + 1)
      in search_parts (data nv) signature name (drop i (parts nv)))"


text \<open>The bytes of a string literal.\<close>

definition bytes_of :: "string \<Rightarrow> byte list" where
  "bytes_of s = map of_char s"


subsection \<open>update_of_config_var\<close>

text \<open>The backing store behind \<^verbatim>\<open>nvram->fd\<close>: the bytes of the file and the file offset.\<close>

record fdstate =
  fcontent :: "byte list"
  fpos :: nat

text \<open>\<^verbatim>\<open>strlen\<close> on the bytes that start at a pointer into a buffer; \<open>None\<close> when the buffer ends
  before a null byte.\<close>

definition strlen :: "byte list \<Rightarrow> nat option" where
  "strlen m = (if 0 \<in> set m then Some (length (takeWhile (\<lambda>c. c \<noteq> 0) m)) else None)"

text \<open>\<^verbatim>\<open>strstr(config_var, "=") - config_var\<close>: the index of the first \<^verbatim>\<open>=\<close> in the string
  argument; \<open>None\<close> when there is none (\<^verbatim>\<open>strstr\<close> returns \<^verbatim>\<open>NULL\<close>).\<close>

definition strstr_eq :: "byte list \<Rightarrow> nat option" where
  "strstr_eq s =
     (let t = takeWhile (\<lambda>c. c \<noteq> 0) s
      in if 0x3d \<in> set t then Some (length (takeWhile (\<lambda>c. c \<noteq> 0x3d) t)) else None)"

text \<open>The loop "now find this config variable in the partition". It ends at the first
  empty string, wherever that is: the end of the partition is not tested.\<close>

function find_var :: "byte list \<Rightarrow> byte list \<Rightarrow> nat \<Rightarrow> nat \<Rightarrow> fault + nat option" where
  "find_var d config_var config_name_len data_offset =
     (if length d \<le> data_offset then Inl OutOfBoundsRead
      else if d ! data_offset = 0 then Inr None
      else (case strncmp (drop data_offset d) (config_var @ [0]) config_name_len of
              None \<Rightarrow> Inl OutOfBoundsRead
            | Some r \<Rightarrow>
                if r = 0 then Inr (Some data_offset)
                else (case strlen (drop data_offset d) of
                        None \<Rightarrow> Inl OutOfBoundsRead
                      | Some l \<Rightarrow> find_var d config_var config_name_len (data_offset + l + 1))))"
  by pat_completeness auto
termination
  by (relation "measure (\<lambda>(d, cv, n, p). length d - p)") auto

text \<open>The loop that finds the end of the name/value pairs.\<close>

function skip_records :: "byte list \<Rightarrow> nat \<Rightarrow> fault + nat" where
  "skip_records d data_offset =
     (if length d \<le> data_offset then Inl OutOfBoundsRead
      else if d ! data_offset = 0 then Inr data_offset
      else (case strlen (drop data_offset d) of
              None \<Rightarrow> Inl OutOfBoundsRead
            | Some l \<Rightarrow> skip_records d (data_offset + l + 1)))"
  by pat_completeness auto
termination
  by (relation "measure (\<lambda>(d, p). length d - p)") auto

text \<open>The outcome of a part of a function: undefined behaviour, a \<^verbatim>\<open>return\<close> with its
  messages, or the value to go on with.\<close>

datatype 'a step = Fault fault | Return int "msg list" | Continue 'a

text \<open>\<^verbatim>\<open>update_of_config_var\<close> from the first \<^verbatim>\<open>memcpy\<close> to the new checksum: the image
  \<open>new_part\<close> of \<open>part_size\<close> bytes, zero-filled by \<^verbatim>\<open>memset\<close>, receives the partition up to the
  matched record, the new assignment, and the records after the matched one with the
  terminating empty string.\<close>

definition build_new_part ::
  "byte list \<Rightarrow> byte list \<Rightarrow> nat \<Rightarrow> nat \<Rightarrow> nat \<Rightarrow> (byte list) step" where
  "build_new_part d config_var ph part_size data_offset =
     (let off = data_offset - ph;
          cv = takeWhile (\<lambda>c. c \<noteq> 0) config_var
      in if part_size < off then Fault BufferOverflow
         else if part_size \<le> off + length cv + 1 then Return (- 1) [E_no_room_for_var]
         else (case strlen (drop data_offset d) of
                 None \<Rightarrow> Fault OutOfBoundsRead
               | Some l \<Rightarrow>
                   let tmp_offset = data_offset + l + 1
                   in (case skip_records d tmp_offset of
                         Inl f \<Rightarrow> Fault f
                       | Inr e \<Rightarrow>
                           if d ! (e - 1) \<noteq> 0 \<and> d ! e \<noteq> 0 then Return (- 1) [E_partition_corrupt]
                           else
                             let data_end = e + 1;
                                 new_part_offset = off + length cv + 1
                             in if part_size < new_part_offset + (data_end - tmp_offset)
                                then Return (- 1) [E_no_room_for_tail]
                                else
                                  let img = take off (drop ph d) @ cv @ [0]
                                              @ take (data_end - tmp_offset) (drop tmp_offset d);
                                      new_part = img @ replicate (part_size - length img) 0
                                  in (case header_at new_part 0 of
                                        None \<Rightarrow> Fault BufferOverflow
                                      | Some new_phead \<Rightarrow>
                                          Continue (new_part[1 := checksum new_phead])))))"

text \<open>The loop of \<^verbatim>\<open>nvram_find_fd_partition\<close>: \<^verbatim>\<open>read\<close> returns the bytes left in the file, at
  most 16; \<^verbatim>\<open>lseek\<close> fails only for a negative offset.\<close>

partial_function (option) find_fd_loop ::
  "byte list \<Rightarrow> byte list \<Rightarrow> nat \<Rightarrow> (fault + int \<times> msg list \<times> nat) option" where
  "find_fd_loop content name pos =
     (let buf = take 16 (drop pos content);
          len = length buf;
          pos1 = pos + len
      in if len = 0 then Some (Inr (- 1, [E_could_not_find_on_device], pos1))
         else if len \<noteq> 16 then Some (Inr (- 1, [E_invalid_read], pos1))
         else (case header_at buf 0 of
                 None \<Rightarrow> Some (Inl OutOfBoundsRead)
               | Some phead \<Rightarrow>
                   (case strncmp (ph_name phead) name 12 of
                      None \<Rightarrow> Some (Inl OutOfBoundsRead)
                    | Some r \<Rightarrow>
                        if r = 0 then Some (Inr (0, [], pos1 - len))
                        else
                          let offset = int (unat (ph_length phead) * NVRAM_BLOCK_SIZE) - int len
                          in if int pos1 + offset < 0 then Some (Inr (- 1, [E_seek_error], pos1))
                             else find_fd_loop content name (nat (int pos1 + offset)))))"

declare find_fd_loop.simps [code]

definition nvram_find_fd_partition ::
  "fdstate \<Rightarrow> byte list \<Rightarrow> (fault + int \<times> msg list \<times> fdstate) option" where
  "nvram_find_fd_partition fd name =
     (case find_fd_loop (fcontent fd) name 0 of
        None \<Rightarrow> None
      | Some (Inl f) \<Rightarrow> Some (Inl f)
      | Some (Inr (rc, ms, pos)) \<Rightarrow> Some (Inr (rc, ms, fd\<lparr>fpos := pos\<rparr>)))"

text \<open>\<^verbatim>\<open>write(fd, buf, count)\<close> that returns \<open>wres\<close>: the first \<open>wres\<close> bytes of \<open>buf\<close> are in
  the file at the offset, which moves by \<open>wres\<close>; nothing changes when \<open>wres\<close> is -1. How many
  bytes a write transfers is the operating system's choice, so \<open>wres\<close> is a parameter.\<close>

definition write_fd :: "fdstate \<Rightarrow> byte list \<Rightarrow> int \<Rightarrow> fdstate" where
  "write_fd fd buf wres =
     (if 0 \<le> wres \<and> nat wres \<le> length buf
      then let n = nat wres;
               old = fcontent fd @ replicate (fpos fd - length (fcontent fd)) 0
           in fd\<lparr>fcontent := take (fpos fd) old @ take n buf @ drop (fpos fd + n) old,
                 fpos := fpos fd + n\<rparr>
      else fd)"

text \<open>\<^verbatim>\<open>update_of_config_var\<close> up to the call of \<^verbatim>\<open>write\<close>. \<^verbatim>\<open>malloc\<close> is taken to succeed.\<close>

datatype prepared =
    Faulted fault
  | Failed int "msg list" fdstate
  | Ready "byte list" nat "msg list" fdstate

definition update_prepare ::
  "nvram \<Rightarrow> fdstate \<Rightarrow> byte list \<Rightarrow> byte list \<Rightarrow> prepared option" where
  "update_prepare nv fd config_var pname =
     (case nvram_find_partition nv 0 (Some pname) None of
        Inl f \<Rightarrow> Some (Faulted f)
      | Inr None \<Rightarrow> Some (Failed (- 1) [E_no_partition] fd)
      | Inr (Some ph) \<Rightarrow>
          (case header_at (data nv) ph of
             None \<Rightarrow> Some (Faulted OutOfBoundsRead)
           | Some phead \<Rightarrow>
               let part_size = unat (ph_length phead) * NVRAM_BLOCK_SIZE
               in (case strstr_eq config_var of
                     None \<Rightarrow> Some (Faulted NullPointer)
                   | Some k \<Rightarrow>
                       (case find_var (data nv) config_var (k + 1) (ph + 16) of
                          Inl f \<Rightarrow> Some (Faulted f)
                        | Inr None \<Rightarrow> Some (Failed (- 1) [E_var_does_not_exist] fd)
                        | Inr (Some data_offset) \<Rightarrow>
                            (case build_new_part (data nv) config_var ph part_size data_offset of
                               Fault f \<Rightarrow> Some (Faulted f)
                             | Return rc ms \<Rightarrow> Some (Failed rc ms fd)
                             | Continue new_part \<Rightarrow>
                                 (case nvram_find_fd_partition fd (drop 4 new_part) of
                                    None \<Rightarrow> None
                                  | Some (Inl f) \<Rightarrow> Some (Faulted f)
                                  | Some (Inr (rc, ms, fd1)) \<Rightarrow>
                                      if rc \<noteq> 0 then Some (Failed (- 1) ms fd1)
                                      else Some (Ready new_part part_size ms fd1)))))))"

text \<open>The whole function: the write, the message when it is short, and \<^verbatim>\<open>return 0\<close>. The
  result holds the return value, the messages, and the structure and the file
  afterwards.\<close>

definition update_of_config_var ::
  "nvram \<Rightarrow> fdstate \<Rightarrow> byte list \<Rightarrow> byte list \<Rightarrow> int
     \<Rightarrow> (fault + int \<times> msg list \<times> nvram \<times> fdstate) option" where
  "update_of_config_var nv fd config_var pname wres =
     (case update_prepare nv fd config_var pname of
        None \<Rightarrow> None
      | Some (Faulted f) \<Rightarrow> Some (Inl f)
      | Some (Failed rc ms fd1) \<Rightarrow> Some (Inr (rc, ms, nv, fd1))
      | Some (Ready new_part part_size ms fd1) \<Rightarrow>
          let fd2 = write_fd fd1 new_part wres;
              ms' = (if wres \<noteq> int part_size then ms @ [E_only_wrote wres part_size] else ms)
          in Some (Inr (0, ms', nv, fd2)))"

text \<open>The records that start at offset \<open>p\<close>: the null-terminated strings up to the first
  empty one, and the offset of that empty string; \<open>None\<close> when the buffer ends first.\<close>

function records_at :: "byte list \<Rightarrow> nat \<Rightarrow> (byte list list \<times> nat) option" where
  "records_at d p =
     (if length d \<le> p then None
      else if d ! p = 0 then Some ([], p)
      else (case strlen (drop p d) of
              None \<Rightarrow> None
            | Some l \<Rightarrow>
                (case records_at d (p + l + 1) of
                   None \<Rightarrow> None
                 | Some (rs, e) \<Rightarrow> Some (take l (drop p d) # rs, e))))"
  by pat_completeness auto
termination
  by (relation "measure (\<lambda>(d, p). length d - p)") auto

text \<open>The bytes that records occupy, each with its null terminator.\<close>

definition record_bytes :: "byte list list \<Rightarrow> nat" where
  "record_bytes rs = sum_list (map (\<lambda>r. length r + 1) rs)"

text \<open>The name portion of a record or an assignment: the text before the first \<^verbatim>\<open>=\<close>.\<close>

definition name_portion :: "byte list \<Rightarrow> byte list" where
  "name_portion r = takeWhile (\<lambda>c. c \<noteq> 0x3d) r"

text \<open>A store with one partition named common, of three blocks, holding foo=1 and
  bar=2.\<close>

definition cfg_image :: "byte list" where
  "cfg_image = [0x70, 0, 0, 3] @ bytes_of ''common'' @ [0, 0, 0, 0, 0, 0]
       @ bytes_of ''foo=1'' @ [0] @ bytes_of ''bar=2'' @ [0, 0] @ replicate 19 0"

definition cfg_nvram :: nvram where
  "cfg_nvram = \<lparr>data = cfg_image, nbytes = 48, parts = [0]\<rparr>"

definition cfg_fd :: fdstate where
  "cfg_fd = \<lparr>fcontent = cfg_image, fpos = 0\<rparr>"

declare find_var.simps [simp del] skip_records.simps [simp del] records_at.simps [simp del]

subsection \<open>dump_vpd\<close>

text \<open>The string that a \<^verbatim>\<open>%s\<close> conversion or \<^verbatim>\<open>strcmp\<close> sees in a buffer: the bytes before the
  first null byte.\<close>

definition c_str :: "byte list \<Rightarrow> byte list" where
  "c_str s = takeWhile (\<lambda>c. c \<noteq> 0) s"

text \<open>\<^verbatim>\<open>getvalue(p, buf)\<close> with \<open>buf\<close> the 4096 bytes of \<^verbatim>\<open>value\<close> in \<^verbatim>\<open>dump_vpd\<close>: a length in two
  bytes, low byte first, then that many bytes; the result is the pointer after them and
  the bytes copied. \<^verbatim>\<open>buf[len] = 0\<close> needs \<open>len < 4096\<close>.\<close>

definition getvalue :: "byte list \<Rightarrow> nat \<Rightarrow> fault + nat \<times> byte list" where
  "getvalue d p =
     (if length d < p + 2 then Inl OutOfBoundsRead
      else
        let len = unat (d ! p) + unat (d ! (p + 1)) * 256
        in if length d < p + 2 + len then Inl OutOfBoundsRead
           else if 4096 \<le> len then Inl BufferOverflow
           else Inr (p + 2 + len, take len (drop (p + 2) d)))"

text \<open>\<^verbatim>\<open>getsmallvalue(p, buf)\<close>: a length in one byte; \<open>buf\<close> has 256 bytes, enough for every
  length.\<close>

definition getsmallvalue :: "byte list \<Rightarrow> nat \<Rightarrow> fault + nat \<times> byte list" where
  "getsmallvalue d p =
     (if length d < p + 1 then Inl OutOfBoundsRead
      else
        let len = unat (d ! p)
        in if length d < p + 1 + len then Inl OutOfBoundsRead
           else Inr (p + 1 + len, take len (drop (p + 1) d)))"

text \<open>\<^verbatim>\<open>lookupfield\<close> over the table \<^verbatim>\<open>descs\<close> of field names and descriptions. The table is
  declared in \<^verbatim>\<open>nvram.h\<close>, which is not among the sources; it is a parameter.\<close>

fun lookupfield :: "(byte list \<times> byte list) list \<Rightarrow> byte list \<Rightarrow> byte list option" where
  "lookupfield [] p = None"
| "lookupfield ((name, desc) # descs) p =
     (if c_str p = c_str name then Some desc else lookupfield descs p)"

text \<open>The output of \<^verbatim>\<open>printf("\t%-20s %s\n", fname, value)\<close>.\<close>

definition field_line :: "byte list \<Rightarrow> byte list \<Rightarrow> byte list" where
  "field_line fname v =
     [0x09] @ c_str fname @ replicate (20 - length (c_str fname)) 0x20 @ [0x20] @ c_str v @ [0x0a]"

text \<open>\<^verbatim>\<open>printVPDfield\<close>: the pointer to the next field and the line printed, if any.\<close>

definition printVPDfield ::
  "(byte list \<times> byte list) list \<Rightarrow> byte list \<Rightarrow> bool \<Rightarrow> nat \<Rightarrow> fault + nat \<times> byte list list" where
  "printVPDfield descs d show_all p =
     (if length d < p + 2 then Inl OutOfBoundsRead
      else
        let field = [d ! p, d ! (p + 1), 0]
        in (case getsmallvalue d (p + 2) of
              Inl f \<Rightarrow> Inl f
            | Inr (p', v) \<Rightarrow>
                (case lookupfield descs field of
                   Some fname \<Rightarrow> Inr (p', [field_line fname v])
                 | None \<Rightarrow> if show_all then Inr (p', [field_line field v]) else Inr (p', []))))"

lemma printVPDfield_advances:
  "printVPDfield descs d show_all p = Inr (p', ls) \<Longrightarrow> p < p'"
  by (auto simp: printVPDfield_def getsmallvalue_def Let_def split: if_splits sum.splits option.splits)

text \<open>The loop \<^verbatim>\<open>while (p < vpd_endp) p = printVPDfield(p, show_all)\<close>.\<close>

function vpd_fields ::
  "(byte list \<times> byte list) list \<Rightarrow> byte list \<Rightarrow> bool \<Rightarrow> nat \<Rightarrow> nat \<Rightarrow> byte list list
     \<Rightarrow> fault + nat \<times> byte list list" where
  "vpd_fields descs d show_all vpd_endp p out =
     (if p < vpd_endp then
        (case printVPDfield descs d show_all p of
           Inl f \<Rightarrow> Inl f
         | Inr (p', ls) \<Rightarrow> vpd_fields descs d show_all vpd_endp p' (out @ ls))
      else Inr (p, out))"
  by pat_completeness auto
termination
  by (relation "measure (\<lambda>(descs, d, show_all, vpd_endp, p, out). vpd_endp - p)")
    (auto dest: printVPDfield_advances)

declare vpd_fields.simps [simp del]

lemma vpd_fields_mono:
  "vpd_fields descs d show_all vpd_endp p out = Inr (p', out') \<Longrightarrow> p \<le> p' \<and> (p' \<le> length d \<or> p' = p)"
proof (induction descs d show_all vpd_endp p out rule: vpd_fields.induct)
  case (1 descs d show_all vpd_endp p out)
  show ?case
  proof (cases "p < vpd_endp")
    case False
    with "1.prems" show ?thesis
      by (simp add: vpd_fields.simps [of descs d show_all vpd_endp p])
  next
    case True
    with "1.prems" obtain q ls where q: "printVPDfield descs d show_all p = Inr (q, ls)"
      and r: "vpd_fields descs d show_all vpd_endp q (out @ ls) = Inr (p', out')"
      by (auto simp: vpd_fields.simps [of descs d show_all vpd_endp p] split: sum.splits)
    from q have ql: "p < q" "q \<le> length d"
      by (auto simp: printVPDfield_def getsmallvalue_def Let_def split: if_splits sum.splits option.splits)
    from "1.IH" [OF True q refl r] ql show ?thesis
      by auto
  qed
qed

text \<open>The loop \<^verbatim>\<open>while (*p != 0x79)\<close> over the keyword blocks: a tag byte, a length in two
  bytes, the fields.\<close>

function vpd_blocks ::
  "(byte list \<times> byte list) list \<Rightarrow> byte list \<Rightarrow> bool \<Rightarrow> nat \<Rightarrow> byte list list
     \<Rightarrow> fault + nat \<times> byte list list" where
  "vpd_blocks descs d show_all p out =
     (if length d \<le> p then Inl OutOfBoundsRead
      else if d ! p \<noteq> 0x79 then
        (if length d < p + 3 then Inl OutOfBoundsRead
         else
           let vpdlen = unat (d ! (p + 1)) + unat (d ! (p + 2)) * 256;
               vpd_endp = p + 3 + vpdlen
           in (case vpd_fields descs d show_all vpd_endp (p + 3) out of
                 Inl f \<Rightarrow> Inl f
               | Inr (p', out') \<Rightarrow> vpd_blocks descs d show_all p' out'))
      else Inr (p, out))"
  by pat_completeness auto
termination
proof (relation "measure (\<lambda>(descs, d, show_all, p, out). Suc (length d) - p)", goal_cases)
  case 1
  show ?case by simp
next
  case (2 descs d show_all p out vpdlen vpd_endp res p' out')
  from vpd_fields_mono [of descs d show_all vpd_endp "p + 3" out p' out'] 2
  show ?case
    by auto
qed

declare vpd_blocks.simps [simp del]

text \<open>The loop \<^verbatim>\<open>while (*p && p < p_end)\<close> of \<^verbatim>\<open>dump_vpd\<close>; \<open>*p\<close> is read before \<open>p\<close> is compared
  with \<open>p_end\<close>. When the byte is neither 0x82 nor 0, the body changes nothing.\<close>

partial_function (option) vpd_loop ::
  "(byte list \<times> byte list) list \<Rightarrow> byte list \<Rightarrow> bool \<Rightarrow> nat \<Rightarrow> nat \<Rightarrow> byte list list
     \<Rightarrow> (fault + nat \<times> byte list list) option" where
  "vpd_loop descs d show_all p_end p out =
     (if length d \<le> p then Some (Inl OutOfBoundsRead)
      else if d ! p \<noteq> 0 \<and> p < p_end then
        (if d ! p = 0x82 then
           (case getvalue d (p + 1) of
              Inl f \<Rightarrow> Some (Inl f)
            | Inr (p1, v) \<Rightarrow>
                (case vpd_blocks descs d show_all p1 (out @ [c_str v @ [0x0a]]) of
                   Inl f \<Rightarrow> Some (Inl f)
                 | Inr (p2, out') \<Rightarrow> vpd_loop descs d show_all p_end (p2 + 2) out'))
         else if d ! p = 0 then Some (Inr (p, out))
         else vpd_loop descs d show_all p_end p out)
      else Some (Inr (p, out)))"

declare vpd_loop.simps [code]

text \<open>\<^verbatim>\<open>dump_vpd\<close>: the return value, the lines printed and the messages. The signature
  \<^verbatim>\<open>NVRAM_SIG_HW\<close> is defined in \<^verbatim>\<open>nvram.h\<close>; it is a parameter.\<close>

definition dump_vpd ::
  "byte \<Rightarrow> (byte list \<times> byte list) list \<Rightarrow> nvram \<Rightarrow> bool
     \<Rightarrow> (fault + int \<times> byte list list \<times> msg list) option" where
  "dump_vpd NVRAM_SIG_HW descs nv show_all =
     (case nvram_find_partition nv NVRAM_SIG_HW (Some (bytes_of ''ibm,vpd'')) None of
        Inl f \<Rightarrow> Some (Inl f)
      | Inr None \<Rightarrow> Some (Inr (- 1, [], [E_no_vpd_partition]))
      | Inr (Some ph) \<Rightarrow>
          (case header_at (data nv) ph of
             None \<Rightarrow> Some (Inl OutOfBoundsRead)
           | Some phead \<Rightarrow>
               let p = ph + 16;
                   p_end = ph + unat (ph_length phead) * 16
               in (case vpd_loop descs (data nv) show_all p_end p [] of
                     None \<Rightarrow> None
                   | Some (Inl f) \<Rightarrow> Some (Inl f)
                   | Some (Inr (p', out)) \<Rightarrow>
                       if length (data nv) \<le> p' then Some (Inl OutOfBoundsRead)
                       else if data nv ! p' \<noteq> 0 \<and> p' < p_end
                       then Some (Inr (0, out, [W_unknown_descriptor (data nv ! p')]))
                       else Some (Inr (0, out, [])))))"

text \<open>A store of one partition of two blocks, named ibm,vpd, with a given payload of 16
  bytes.\<close>

definition vpd_header :: "byte list" where
  "vpd_header = [0x52, 0, 0, 2] @ bytes_of ''ibm,vpd'' @ [0, 0, 0, 0, 0]"

definition vpd_nvram :: "byte list \<Rightarrow> nvram" where
  "vpd_nvram payload = \<lparr>data = vpd_header @ payload, nbytes = 32, parts = [0]\<rparr>"

definition vpd_unknown :: nvram where
  "vpd_unknown = vpd_nvram [0x41, 0, 0, 0, 0, 0, 0, 0, 0, 0, 0, 0, 0, 0, 0, 0]"

text \<open>A payload that fills its partition: the tag 0x82, the length 11 in two bytes, an
  identification string of 11 bytes, the end tag 0x79 and the checksum byte. The declared
  end of the payload is the end of the store.\<close>

definition vpd_full :: nvram where
  "vpd_full = vpd_nvram ([0x82, 11, 0] @ bytes_of ''IBM,7028-6E'' @ [0x79, 0xaa])"

subsection \<open>dump_errlog\<close>

text \<open>\<^verbatim>\<open>ntohs(p[i])\<close> for \<^verbatim>\<open>uint16_t *p\<close> at byte offset \<open>p\<close> of the buffer: the big-endian value
  of the two bytes.\<close>

definition read16 :: "byte list \<Rightarrow> nat \<Rightarrow> nat \<Rightarrow> fault + 16 word" where
  "read16 d p i =
     (if length d < p + 2 * i + 2 then Inl OutOfBoundsRead
      else Inr (be16 (d ! (p + 2 * i)) (d ! (p + 2 * i + 1))))"

text \<open>\<^verbatim>\<open>offset = ntohs(p[i])/2+1\<close> and \<^verbatim>\<open>offset + i < p_max ? p + offset + i : 0\<close>. A block
  pointer is \<open>Some k\<close> for \<open>p + k\<close> and \<open>None\<close> for the null pointer.\<close>

definition resolve_offset :: "int \<Rightarrow> nat \<Rightarrow> 16 word \<Rightarrow> nat option" where
  "resolve_offset p_max i w =
     (let offset = unat w div 2 + 1
      in if int (offset + i) < p_max then Some (offset + i) else None)"

definition read_offset :: "byte list \<Rightarrow> nat \<Rightarrow> int \<Rightarrow> nat \<Rightarrow> fault + nat option" where
  "read_offset d p p_max i =
     (case read16 d p i of Inl f \<Rightarrow> Inl f | Inr w \<Rightarrow> Inr (resolve_offset p_max i w))"

text \<open>The difference of two block pointers. With a null operand it is undefined in C (its
  value would be made of the address of the buffer); the run ends with \<open>NullPointer\<close>.\<close>

definition ptr_diff :: "nat option \<Rightarrow> nat option \<Rightarrow> fault + int" where
  "ptr_diff a b =
     (case a of
        None \<Rightarrow> Inl NullPointer
      | Some x \<Rightarrow> (case b of None \<Rightarrow> Inl NullPointer | Some y \<Rightarrow> Inr (int x - int y)))"

text \<open>What \<^verbatim>\<open>dump_errlog\<close> prints: its \<^verbatim>\<open>printf\<close> lines, and \<open>Raw_data ptr len\<close> for a call
  \<^verbatim>\<open>dump_raw_data(ptr, len)\<close> (the hex dump itself is not part of the embedding).\<close>

datatype errlog_out =
    Checkstops_detected byte
  | No_checkstops
  | Cpus nat
  | Memory_controllers nat
  | Io_controllers nat
  | System_specific_registers
  | Cpu_register_data nat int int
  | Raw_data "nat option" int

text \<open>What the first half of \<^verbatim>\<open>dump_errlog\<close>, up to "End of header", collects.\<close>

record errlog_header =
  checkstop_count :: byte
  sys_regs :: "nat option"
  num_cpus :: nat
  cpu_regs :: "nat option list"
  num_memctrls :: nat
  memctrl_data :: "nat option"
  num_ioctrls :: nat
  ioctrl_data :: "nat option"

text \<open>The loop over the CPU offsets; \<open>n\<close> counts the rounds left. \<^verbatim>\<open>MAX_CPUS\<close> is defined in
  \<^verbatim>\<open>nvram.h\<close> and is a parameter.\<close>

fun read_cpu_offsets ::
  "byte list \<Rightarrow> nat \<Rightarrow> int \<Rightarrow> nat \<Rightarrow> nat \<Rightarrow> nat \<Rightarrow> nat \<Rightarrow> nat option list
     \<Rightarrow> fault + nat \<times> nat option list" where
  "read_cpu_offsets d p p_max MAX_CPUS i cpu 0 regs = Inr (i, regs)"
| "read_cpu_offsets d p p_max MAX_CPUS i cpu (Suc n) regs =
     (if cpu < MAX_CPUS then
        (case read_offset d p p_max (i + 1) of
           Inl f \<Rightarrow> Inl f
         | Inr r \<Rightarrow> read_cpu_offsets d p p_max MAX_CPUS (i + 1) (cpu + 1) n (regs @ [r]))
      else read_cpu_offsets d p p_max MAX_CPUS (i + 1) (cpu + 1) n regs)"

text \<open>A count at index \<open>i + 1\<close> and an offset at index \<open>i + 2\<close>: the memory controllers,
  then the I/O controllers.\<close>

definition read_controllers ::
  "byte list \<Rightarrow> nat \<Rightarrow> int \<Rightarrow> nat \<Rightarrow> fault + nat \<times> nat option" where
  "read_controllers d p p_max i =
     (case read16 d p (i + 1) of
        Inl f \<Rightarrow> Inl f
      | Inr n \<Rightarrow>
          (case read_offset d p p_max (i + 2) of
             Inl f \<Rightarrow> Inl f
           | Inr r \<Rightarrow> Inr (unat n, r)))"

definition read_errlog_header ::
  "byte list \<Rightarrow> nat \<Rightarrow> int \<Rightarrow> nat \<Rightarrow> fault + errlog_header" where
  "read_errlog_header d p p_max MAX_CPUS =
     (case read16 d p 0 of Inl f \<Rightarrow> Inl f | Inr w0 \<Rightarrow>
     (case read_offset d p p_max 1 of Inl f \<Rightarrow> Inl f | Inr sys \<Rightarrow>
     (case read16 d p 2 of Inl f \<Rightarrow> Inl f | Inr n \<Rightarrow>
     (case read_cpu_offsets d p p_max MAX_CPUS 2 0 (unat n) [] of Inl f \<Rightarrow> Inl f | Inr (i, regs) \<Rightarrow>
     (case read_controllers d p p_max i of Inl f \<Rightarrow> Inl f | Inr (nm, mem) \<Rightarrow>
     (case read_controllers d p p_max (i + 2) of Inl f \<Rightarrow> Inl f | Inr (nio, io) \<Rightarrow>
        Inr \<lparr>checkstop_count = ucast (drop_bit 8 w0), sys_regs = sys, num_cpus = unat n,
             cpu_regs = regs, num_memctrls = nm, memctrl_data = mem,
             num_ioctrls = nio, ioctrl_data = io\<rparr>))))))"

text \<open>The loop that dumps the CPU blocks; \<open>regs\<close> is \<^verbatim>\<open>cpu_regs\<close> with the I/O block as its
  last entry. There is no test for a null pointer.\<close>

fun dump_cpu_regs ::
  "nat option list \<Rightarrow> nat \<Rightarrow> nat \<Rightarrow> errlog_out list \<Rightarrow> fault + errlog_out list" where
  "dump_cpu_regs regs cpu 0 out = Inr out"
| "dump_cpu_regs regs cpu (Suc n) out =
     (case ptr_diff (regs ! (cpu + 1)) (regs ! cpu) of
        Inl f \<Rightarrow> Inl f
      | Inr len \<Rightarrow>
          (case ptr_diff (regs ! cpu) (Some 0) of
             Inl f \<Rightarrow> Inl f
           | Inr off \<Rightarrow>
               dump_cpu_regs regs (cpu + 1) n
                 (out @ [Cpu_register_data cpu len off]
                    @ (if len < 4096 then [Raw_data (regs ! cpu) len] else []))))"

text \<open>\<^verbatim>\<open>if (sys_regs && num_cpus > 0)\<close>: the system registers, up to the first CPU block.\<close>

definition dump_sys_regs :: "errlog_header \<Rightarrow> nat \<Rightarrow> fault + errlog_out list" where
  "dump_sys_regs h n =
     (if sys_regs h \<noteq> None \<and> 0 < n
      then (case ptr_diff (cpu_regs h ! 0) (sys_regs h) of
              Inl f \<Rightarrow> Inl f
            | Inr len \<Rightarrow> Inr [System_specific_registers, Raw_data (sys_regs h) len])
      else Inr [])"

definition dump_sections :: "errlog_header \<Rightarrow> nat \<Rightarrow> fault + errlog_out list" where
  "dump_sections h MAX_CPUS =
     (let n = (if MAX_CPUS < num_cpus h then MAX_CPUS else num_cpus h);
          out = [if checkstop_count h \<noteq> 0 then Checkstops_detected (checkstop_count h)
                 else No_checkstops,
                 Cpus (num_cpus h), Memory_controllers (num_memctrls h),
                 Io_controllers (num_ioctrls h)]
      in (case dump_sys_regs h n of
            Inl f \<Rightarrow> Inl f
          | Inr sys_out \<Rightarrow> dump_cpu_regs (cpu_regs h @ [ioctrl_data h]) 0 n (out @ sys_out)))"

text \<open>\<^verbatim>\<open>dump_errlog\<close>. \<^verbatim>\<open>NVRAM_SIG_SP\<close> is defined in \<^verbatim>\<open>nvram.h\<close> and is a parameter; \<open>p_max\<close> is
  the number of 16-bit words of the payload.\<close>

definition dump_errlog ::
  "byte \<Rightarrow> nat \<Rightarrow> nvram \<Rightarrow> fault + int \<times> errlog_out list \<times> msg list" where
  "dump_errlog NVRAM_SIG_SP MAX_CPUS nv =
     (case nvram_find_partition nv NVRAM_SIG_SP (Some (bytes_of ''ibm,err-log'')) None of
        Inl f \<Rightarrow> Inl f
      | Inr None \<Rightarrow> Inr (- 1, [], [E_no_errlog_partition])
      | Inr (Some ph) \<Rightarrow>
          (case header_at (data nv) ph of
             None \<Rightarrow> Inl OutOfBoundsRead
           | Some phead \<Rightarrow>
               let p = ph + 16;
                   p_max = (int (unat (ph_length phead)) - 1) * 8
               in if p_max < 4 then Inr (- 1, [], [E_corrupt_errlog])
                  else
                    (case read_errlog_header (data nv) p p_max MAX_CPUS of
                       Inl f \<Rightarrow> Inl f
                     | Inr h \<Rightarrow>
                         (case dump_sections h MAX_CPUS of
                            Inl f \<Rightarrow> Inl f
                          | Inr out \<Rightarrow> Inr (0, out, [])))))"

text \<open>A store of one partition of three blocks, named ibm,err-log; in \<open>errlog_absent_cpu\<close>
  the header announces one CPU whose offset 0x40 resolves to word 36 of the 16 words of the
  payload.\<close>

definition errlog_header_bytes :: "byte list" where
  "errlog_header_bytes = [0x02, 0, 0, 3] @ bytes_of ''ibm,err-log'' @ [0]"

definition errlog_nvram :: "byte list \<Rightarrow> nvram" where
  "errlog_nvram payload = \<lparr>data = errlog_header_bytes @ payload, nbytes = 48, parts = [0]\<rparr>"

definition errlog_absent_cpu :: nvram where
  "errlog_absent_cpu =
     errlog_nvram [0, 0, 0, 14, 0, 1, 0, 0x40, 0, 0, 0, 0, 0, 0, 0, 10,
                   0, 0, 0, 0, 0, 0, 0, 0, 0, 0, 0, 0, 0, 0, 0, 0]"

text \<open>A block pointer is null or inside the \<open>p_max\<close> words of the payload.\<close>

definition in_span :: "int \<Rightarrow> nat option \<Rightarrow> bool" where
  "in_span p_max r = (case r of None \<Rightarrow> True | Some k \<Rightarrow> int k < p_max)"

section \<open>Properties\<close>

subsection \<open>checksum\<close>

lemma header_sum_nat_bound: "header_sum_nat p < 2 ^ 19"
proof -
  have a: "unat (ph_signature p) < 2 ^ 8"
    using unsigned_less [of "ph_signature p"] by simp
  have b: "unat (x :: 16 word) < 2 ^ 16" for x
    using unsigned_less [of x] by simp
  show ?thesis
    unfolding header_sum_nat_def
    using a b [of "ph_length p"] b [of "name_word p 0"] b [of "name_word p 1"]
      b [of "name_word p 2"] b [of "name_word p 3"] b [of "name_word p 4"] b [of "name_word p 5"]
    by simp
qed

lemma unat_header_sum: "unat (header_sum p) = header_sum_nat p"
proof -
  have "header_sum p = of_nat (header_sum_nat p)"
    by (simp add: header_sum_def header_sum_nat_def)
  moreover have "header_sum_nat p < 2 ^ 32"
    using header_sum_nat_bound [of p] by simp
  ultimately show ?thesis
    by (simp add: unat_of_nat)
qed

lemma and_ffff: "(x :: 32 word) AND 0xffff = take_bit 16 x"
  by (simp add: take_bit_eq_mask mask_eq_exp_minus_1)

lemma and_ff: "(x :: 32 word) AND 0xff = take_bit 8 x"
  by (simp add: take_bit_eq_mask mask_eq_exp_minus_1)

lemma fold16_unat:
  fixes c :: "32 word"
  shows "unat (((c AND 0xffff) + drop_bit 16 c) AND 0xffff)
           = (unat c mod 65536 + unat c div 65536) mod 65536"
proof -
  have a: "unat (c AND 0xffff) = unat c mod 65536"
    by (simp add: and_ffff take_bit_eq_mod unat_mod_distrib)
  have b: "unat (drop_bit 16 c) = unat c div 65536"
    by (simp add: drop_bit_eq_div unat_div_distrib)
  have "unat c < 2 ^ 32"
    using unsigned_less [of c] by simp
  then have "unat c mod 65536 + unat c div 65536 < 2 ^ 32"
    by simp
  then have "unat ((c AND 0xffff) + drop_bit 16 c) = unat c mod 65536 + unat c div 65536"
    using a b by (simp add: unat_word_ariths)
  then show ?thesis
    by (simp add: and_ffff [of "(c AND 0xffff) + drop_bit 16 c"] take_bit_eq_mod unat_mod_distrib)
qed

lemma byte_fold_arith:
  fixes n :: nat
  shows "((n + (n div 256 + n * 256)) div 256) mod 256
           = (n div 256 + n mod 256 + (n div 256 + n mod 256) div 256) mod 256"
proof -
  define q r where "q = n div 256" and "r = n mod 256"
  have n: "n = 256 * q + r"
    by (simp add: q_def r_def)
  have "n + (q + n * 256) = 256 * (q + n) + (q + r)"
    using n by simp
  then have "(n + (q + n * 256)) div 256 = q + n + (q + r) div 256"
    by (metis div_mult_self2 add.commute zero_neq_numeral)
  also have "\<dots> = 256 * q + (q + r + (q + r) div 256)"
    using n by simp
  finally have "(n + (q + n * 256)) div 256 mod 256 = (q + r + (q + r) div 256) mod 256"
    by (metis mod_mult_self4)
  then show ?thesis
    by (simp add: q_def r_def)
qed

lemma fold8_unat:
  fixes f :: "32 word"
  assumes "unat f < 65536"
  shows "unat (ucast (drop_bit 8 (f + (drop_bit 8 f + push_bit 8 f)) AND (0xff :: 32 word)) :: byte)
           = (unat f div 256 + unat f mod 256 + (unat f div 256 + unat f mod 256) div 256) mod 256"
proof -
  let ?n = "unat f"
  have a: "unat (drop_bit 8 f) = ?n div 256"
    by (simp add: drop_bit_eq_div unat_div_distrib)
  have b: "unat (push_bit 8 f) = ?n * 256"
    using assms by (simp add: push_bit_eq_mult unat_word_ariths)
  have c: "unat (drop_bit 8 f + push_bit 8 f) = ?n div 256 + ?n * 256"
    using assms a b by (simp add: unat_word_ariths)
  have d: "unat (f + (drop_bit 8 f + push_bit 8 f)) = ?n + (?n div 256 + ?n * 256)"
    using assms c by (simp add: unat_word_ariths)
  have e: "unat (drop_bit 8 (f + (drop_bit 8 f + push_bit 8 f)) AND (0xff :: 32 word))
             = ((?n + (?n div 256 + ?n * 256)) div 256) mod 256"
    using d by (simp add: and_ff take_bit_eq_mod drop_bit_eq_div unat_mod_distrib unat_div_distrib)
  have g: "unat (ucast (drop_bit 8 (f + (drop_bit 8 f + push_bit 8 f)) AND (0xff :: 32 word)) :: byte)
             = ((?n + (?n div 256 + ?n * 256)) div 256) mod 256"
    using e by (simp add: unsigned_ucast_eq take_bit_eq_mod)
  show ?thesis
    using g byte_fold_arith [of ?n] by simp
qed

text \<open>
  Claim C4, as amended. For every 16-byte partition header, \<open>checksum\<close> is a total function
  and its value is: the sum of signature, length and the six 16-bit words of the name;
  the bits of the sum above position 16 added once to its low 16 bits, kept to 16 bits;
  then the high byte and the low byte of that value added together with the carry out of
  their addition added back in (an end-around carry), masked to one byte.
\<close>

theorem checksum_value:
  assumes "length (ph_name p) = 12"
  shows "unat (checksum p) =
     (let s = header_sum_nat p;
          f = (s mod 65536 + s div 65536) mod 65536;
          hi = f div 256;
          lo = f mod 256
      in (hi + lo + (hi + lo) div 256) mod 256)"
proof -
  define f where "f = ((header_sum p AND 0xffff) + drop_bit 16 (header_sum p)) AND 0xffff"
  have f: "unat f = (header_sum_nat p mod 65536 + header_sum_nat p div 65536) mod 65536"
    unfolding f_def by (simp only: fold16_unat unat_header_sum)
  then have lt: "unat f < 65536"
    by simp
  have "checksum p = ucast (drop_bit 8 (f + (drop_bit 8 f + push_bit 8 f)) AND (0xff :: 32 word))"
    unfolding checksum_def f_def Let_def by (rule refl)
  then show ?thesis
    by (simp only: fold8_unat [OF lt] f Let_def)
qed

text \<open>The instance of the spec: signature 0x70, length 1, name all zero; the value is
  0x71.\<close>

theorem checksum_value_witness:
  "length (ph_name \<lparr>ph_signature = 0x70, ph_checksum = 0, ph_length = 1, ph_name = replicate 12 0\<rparr>) = 12
   \<and> unat (checksum \<lparr>ph_signature = 0x70, ph_checksum = 0, ph_length = 1, ph_name = replicate 12 0\<rparr>) = 0x71"
  using checksum_value [of "\<lparr>ph_signature = 0x70, ph_checksum = 0, ph_length = 1, ph_name = replicate 12 0\<rparr>"]
  by (simp add: header_sum_nat_def name_word_def be16_def)

text \<open>
  Claim C4, as stated, fails: without the carry the two bytes 0xff and 0x01 of the sum
  0xff01 (signature 1, length 0xff00, name all zero) fold to 0, while the code returns 1.
\<close>

theorem checksum_spec_counterexample:
  "unat (checksum \<lparr>ph_signature = 1, ph_checksum = 0, ph_length = 0xff00, ph_name = replicate 12 0\<rparr>)
     \<noteq> checksum_spec \<lparr>ph_signature = 1, ph_checksum = 0, ph_length = 0xff00, ph_name = replicate 12 0\<rparr>"
  by (simp add: checksum_def checksum_spec_def header_sum_def header_sum_nat_def name_word_def be16_def)

subsection \<open>nvram_parse_partitions\<close>

lemma header_at_append:
  assumes "16 \<le> length b"
  shows "header_at (pre @ b @ rest) (length pre) = header_at b 0"
proof -
  have n: "(pre @ b @ rest) ! (length pre + k) = b ! (0 + k)" if "k < 16" for k
    using that assms by (simp add: nth_append)
  have n0: "(pre @ b @ rest) ! length pre = b ! 0"
    using n [of 0] by simp
  have k: "(1::nat) < 16" "(2::nat) < 16" "(3::nat) < 16"
    by simp_all
  have t: "take 12 (drop (length pre + 4) (pre @ b @ rest)) = take 12 (drop (0 + 4) b)"
    using assms by simp
  have l: "length pre + 16 \<le> length (pre @ b @ rest)" "0 + 16 \<le> length b"
    using assms by simp_all
  show ?thesis
    unfolding header_at_def
    by (simp only: n0 n [OF k(1)] n [OF k(2)] n [OF k(3)] t l if_True)
qed

lemma parse_loop_concat:
  assumes "list_all wf_partition pts"
  shows "parse_loop (pre @ concat pts) (length pre + length (concat pts)) (length pre) ps ms
           = Some (Inr (ps @ part_offsets (length pre) pts, ms @ concat (map checksum_warning pts)))"
  using assms
proof (induction pts arbitrary: pre ps ms)
  case Nil
  show ?case
    by (subst parse_loop.simps) simp
next
  case (Cons b bs)
  from Cons.prems have wb: "wf_partition b" and bs: "list_all wf_partition bs"
    by simp_all
  from wb obtain h where h: "header_at b 0 = Some h" "1 \<le> unat (ph_length h)"
      "length b = unat (ph_length h) * 16" 
    by (cases "header_at b 0") (auto simp: wf_partition_def)
  have len: "16 \<le> length b"
    using h by simp
  have hd: "header_at (pre @ concat (b # bs)) (length pre) = Some h"
    using header_at_append [OF len, of pre "concat bs"] h by simp
  have ih: "parse_loop ((pre @ b) @ concat bs) (length (pre @ b) + length (concat bs)) (length (pre @ b)) ps' ms'
           = Some (Inr (ps' @ part_offsets (length (pre @ b)) bs, ms' @ concat (map checksum_warning bs)))" for ps' ms'
    by (rule Cons.IH [OF bs])
  show ?case
    apply (subst parse_loop.simps)
    using len h hd ih
    apply (simp add: Let_def NVRAM_BLOCK_SIZE_def checksum_warning_def add.assoc)
    done
qed


text \<open>
  Claim C1 does not hold of the code. When the walk reaches a header whose length field is
  0, the loop of \<open>nvram_parse_partitions\<close> adds 0 to \<open>p_start\<close> and meets the same header
  again: it never returns, with an error or otherwise. The function has no test of the
  length field.
\<close>

theorem parse_zero_length_never_returns:
  assumes "header_at (data nv) p = Some h" and "ph_length h = 0" and "p < nbytes nv"
  shows "parse_loop (data nv) (nbytes nv) p ps ms = None"
proof -
  define stuck where
    "stuck = (\<lambda>d nb p (ps :: nat list) (ms :: msg list) (y :: fault + nat list \<times> msg list).
               \<not> (\<exists>h. header_at d p = Some h \<and> ph_length h = 0 \<and> p < nb))"
  have "stuck d' nb' p' ps' ms' y" if "parse_loop d' nb' p' ps' ms' = Some y" for d' nb' p' ps' ms' y
    apply (rule parse_loop.raw_induct [where P = stuck, OF _ that])
    subgoal premises prems for f d nb p ps ms y
    proof -
      have "False" if "header_at d p = Some h" "ph_length h = 0" "p < nb" for h
      proof -
        from prems(2) that obtain qs ns where "f d nb p qs ns = Some y"
          by (auto simp: Let_def)
        from prems(1) [OF this] that show False
          by (auto simp: stuck_def)
      qed
      then show ?thesis
        by (auto simp: stuck_def)
    qed
    done
  with assms show ?thesis
    by (cases "parse_loop (data nv) (nbytes nv) p ps ms") (auto simp: stuck_def)
qed

theorem parse_zero_length_never_returns_witness:
  "header_at (data \<lparr>data = replicate 16 0, nbytes = 16, parts = []\<rparr>) 0
     = Some \<lparr>ph_signature = 0, ph_checksum = 0, ph_length = 0, ph_name = replicate 12 0\<rparr>
   \<and> ph_length \<lparr>ph_signature = 0, ph_checksum = 0, ph_length = 0, ph_name = replicate 12 0\<rparr> = 0
   \<and> 0 < nbytes \<lparr>data = replicate 16 0, nbytes = 16, parts = []\<rparr>
   \<and> nvram_parse_partitions \<lparr>data = replicate 16 0, nbytes = 16, parts = []\<rparr> = None"
proof -
  have h: "header_at (data \<lparr>data = replicate 16 0, nbytes = 16, parts = []\<rparr>) 0
     = Some \<lparr>ph_signature = 0, ph_checksum = 0, ph_length = 0, ph_name = replicate 12 0\<rparr>"
    by (simp add: header_at_def be16_def)
  have "parse_loop (data \<lparr>data = replicate 16 0, nbytes = 16, parts = []\<rparr>)
          (nbytes \<lparr>data = replicate 16 0, nbytes = 16, parts = []\<rparr>) 0 [] [] = None"
    by (rule parse_zero_length_never_returns [OF h]) simp_all
  then show ?thesis
    using h by (simp add: nvram_parse_partitions_def)
qed

lemma length_part_offsets: "length (part_offsets off pts) = length pts"
  by (induction pts arbitrary: off) simp_all

lemma part_offsets_lower: "x \<in> set (part_offsets off pts) \<Longrightarrow> off \<le> x"
proof (induction pts arbitrary: off)
  case Nil
  then show ?case by simp
next
  case (Cons b bs)
  then show ?case
    by (fastforce dest: Cons.IH)
qed

lemma wf_partition_length: "wf_partition b \<Longrightarrow> 16 \<le> length b"
  by (cases "header_at b 0") (auto simp: wf_partition_def)

lemma part_offsets_increasing:
  "list_all wf_partition pts \<Longrightarrow> sorted_wrt (<) (part_offsets off pts)"
proof (induction pts arbitrary: off)
  case Nil
  show ?case by simp
next
  case (Cons b bs)
  have "off < x" if "x \<in> set (part_offsets (off + length b) bs)" for x
    using part_offsets_lower [OF that] wf_partition_length [of b] Cons.prems by simp
  with Cons show ?case
    by simp
qed

lemma header_at_part_offsets:
  assumes "list_all wf_partition pts" and "i < length pts"
  shows "header_at (pre @ concat pts) (part_offsets (length pre) pts ! i) = header_at (pts ! i) 0"
  using assms
proof (induction pts arbitrary: pre i)
  case Nil
  then show ?case by simp
next
  case (Cons b bs)
  from Cons.prems have wb: "wf_partition b" and bs: "list_all wf_partition bs"
    by simp_all
  show ?case
  proof (cases i)
    case 0
    with header_at_append [OF wf_partition_length [OF wb], of pre "concat bs"] show ?thesis
      by simp
  next
    case (Suc k)
    with Cons.prems have k: "k < length bs"
      by simp
    from Cons.IH [OF bs k, of "pre @ b"] Suc show ?thesis
      by simp
  qed
qed

text \<open>
  Claim C7. For every buffer made of N partitions, each with a length field of at least 1
  that counts exactly its own 16-byte blocks, \<open>nvram_parse_partitions\<close> returns (with 0)
  a table of exactly N entries, the offsets of the N headers in increasing order, whatever
  the stored checksums are: a header whose stored checksum differs from the computed one
  adds a warning and its entry is in the table all the same.
\<close>

theorem parse_recovers_all_partitions:
  assumes "list_all wf_partition pts"
  shows "nvram_parse_partitions \<lparr>data = concat pts, nbytes = length (concat pts), parts = []\<rparr>
           = Some (Inr (0, \<lparr>data = concat pts, nbytes = length (concat pts),
                             parts = part_offsets 0 pts\<rparr>,
                        concat (map checksum_warning pts)))
       \<and> length (part_offsets 0 pts) = length pts
       \<and> sorted_wrt (<) (part_offsets 0 pts)
       \<and> (\<forall>i<length pts. header_at (concat pts) (part_offsets 0 pts ! i) = header_at (pts ! i) 0)"
proof -
  have "parse_loop (concat pts) (length (concat pts)) 0 [] []
          = Some (Inr (part_offsets 0 pts, concat (map checksum_warning pts)))"
    using parse_loop_concat [OF assms, of "[]" "[]" "[]"] by simp
  then have "nvram_parse_partitions \<lparr>data = concat pts, nbytes = length (concat pts), parts = []\<rparr>
           = Some (Inr (0, \<lparr>data = concat pts, nbytes = length (concat pts),
                             parts = part_offsets 0 pts\<rparr>,
                        concat (map checksum_warning pts)))"
    by (simp add: nvram_parse_partitions_def)
  moreover have "\<forall>i<length pts. header_at (concat pts) (part_offsets 0 pts ! i) = header_at (pts ! i) 0"
    using header_at_part_offsets [OF assms, of _ "[]"] by simp
  ultimately show ?thesis
    using part_offsets_increasing [OF assms, of 0] by (simp add: length_part_offsets)
qed

theorem parse_recovers_all_partitions_witness:
  "list_all wf_partition two_partitions
   \<and> nvram_parse_partitions \<lparr>data = concat two_partitions, nbytes = 48, parts = []\<rparr>
       = Some (Inr (0, \<lparr>data = concat two_partitions, nbytes = 48, parts = [0, 16]\<rparr>,
                    [W_checksum_should_be 0x52]))"
proof -
  have wf: "list_all wf_partition two_partitions"
    by (simp add: two_partitions_def wf_partition_def header_at_def be16_def)
  have w: "concat (map checksum_warning two_partitions) = [W_checksum_should_be 0x52]"
    by (simp add: two_partitions_def checksum_warning_def header_at_def be16_def checksum_def
        header_sum_def name_word_def)
  have l: "length (concat two_partitions) = 48" "part_offsets 0 two_partitions = [0, 16]"
    by (simp_all add: two_partitions_def)
  from parse_recovers_all_partitions [OF wf] show ?thesis
    using wf by (simp add: w l)
qed

subsection \<open>nvram_find_partition\<close>

lemma strncmp_short:
  assumes "0 \<notin> set nm" and "length nm < n" and "n \<le> length f"
  shows "\<exists>r. strncmp (nm @ [0]) f n = Some r \<and> (r = 0 \<longleftrightarrow> take (length nm) f = nm \<and> f ! length nm = 0)"
  using assms
proof (induction nm arbitrary: f n)
  case Nil
  then obtain c f' n' where "f = c # f'" "n = Suc n'"
    by (cases f; cases n) auto
  then show ?case
    by (auto simp: word_uint_eq_iff)
next
  case (Cons a nm)
  then obtain c f' n' where f: "f = c # f'" "n = Suc n'"
    by (cases f; cases n) auto
  with Cons.prems have p: "0 \<notin> set nm" "length nm < n'" "n' \<le> length f'" "a \<noteq> 0"
    by auto
  from Cons.IH [OF p(1-3)] f p(4) show ?case
    by (auto simp: word_uint_eq_iff)
qed



lemma index_of_start_absent:
  "s \<notin> set xs \<Longrightarrow> index_of_start xs s = length xs"
  by (induction xs) auto





lemma strncmp_padding:
  assumes "0 \<notin> set nm" and "length nm < 12" and "length (nm @ c # t) = 12"
  shows "strncmp (nm @ [0]) (nm @ c # t) 12 = Some 0 \<longleftrightarrow> c = 0"
proof -
  from assms(3) have "12 \<le> length (nm @ c # t)"
    by simp
  from strncmp_short [OF assms(1,2) this] show ?thesis
    by auto
qed




subsection \<open>update_of_config_var\<close>

lemma takeWhile_stop:
  "\<forall>x\<in>set r. P x \<Longrightarrow> \<not> P a \<Longrightarrow> takeWhile P (r @ a # t) = r"
  by (induction r) auto

lemma strlen_append: "0 \<notin> set r \<Longrightarrow> strlen (r @ 0 # t) = Some (length r)"
proof -
  assume "0 \<notin> set r"
  then have "takeWhile (\<lambda>c :: byte. c \<noteq> 0) (r @ 0 # t) = r"
    by (intro takeWhile_stop) auto
  then show ?thesis
    by (simp add: strlen_def)
qed

lemma strlen_SomeD:
  assumes "strlen m = Some l"
  shows "m = take l m @ 0 # drop (Suc l) m" and "0 \<notin> set (take l m)" and "l < length m"
proof -
  let ?P = "\<lambda>c :: byte. c \<noteq> 0"
  from assms have z: "0 \<in> set m" and l: "l = length (takeWhile ?P m)"
    by (auto simp: strlen_def split: if_splits)
  have t: "takeWhile ?P m = take l m"
    unfolding l by (rule takeWhile_eq_take)
  have d: "dropWhile ?P m = drop l m"
    unfolding l by (rule dropWhile_eq_drop)
  from z have ne: "dropWhile ?P m \<noteq> []"
    by (auto simp: dropWhile_eq_Nil_conv)
  with hd_dropWhile [OF ne] have "hd (drop l m) = 0" "drop l m \<noteq> []"
    using d by auto
  then show "l < length m"
    by simp
  then have "drop l m = 0 # drop (Suc l) m"
    using \<open>hd (drop l m) = 0\<close> by (metis Cons_nth_drop_Suc hd_drop_conv_nth)
  then show "m = take l m @ 0 # drop (Suc l) m"
    by (metis append_take_drop_id)
  show "0 \<notin> set (take l m)"
    using set_takeWhileD [of 0 ?P m] t by auto
qed

lemma strncmp_mem:
  assumes "0 \<notin> set nm" and "length nm = n" and "0 \<notin> set r"
  shows "\<exists>x. strncmp (r @ 0 # t) (nm @ rest) n = Some x \<and> (x = 0 \<longleftrightarrow> take n r = nm)"
  using assms
proof (induction nm arbitrary: r n)
  case Nil
  then show ?case by simp
next
  case (Cons a nm)
  then obtain n' where n: "n = Suc n'" "length nm = n'" and a: "a \<noteq> 0" "0 \<notin> set nm"
    by (cases n) auto
  show ?case
  proof (cases r)
    case Nil
    with n a show ?thesis
      by (auto simp: word_uint_eq_iff)
  next
    case (Cons c r')
    with Cons.prems have "0 \<notin> set r'" "c \<noteq> 0"
      by auto
    from Cons.IH [OF a(2) n(2) this(1)] this(2) n Cons a show ?thesis
      by (auto simp: word_uint_eq_iff)
  qed
qed

lemma records_at_Nil:
  assumes "records_at d p = Some ([], e)"
  shows "e = p" and "p < length d" and "d ! p = 0"
  using assms by (auto simp: records_at.simps [of d p] split: if_splits option.splits)

lemma records_at_Cons:
  assumes "records_at d p = Some (r # rs, e)"
  shows "p < length d" and "d ! p \<noteq> 0" and "strlen (drop p d) = Some (length r)"
    and "0 \<notin> set r" and "\<exists>t. drop p d = r @ 0 # t"
    and "records_at d (p + length r + 1) = Some (rs, e)"
proof -
  from assms obtain l where p: "p < length d" "d ! p \<noteq> 0" and l: "strlen (drop p d) = Some l"
    and r: "r = take l (drop p d)" and rest: "records_at d (p + l + 1) = Some (rs, e)"
    by (auto simp: records_at.simps [of d p] split: if_splits option.splits)
  from strlen_SomeD [OF l] r have len: "length r = l" and z: "0 \<notin> set r"
    and dec: "drop p d = r @ 0 # drop (Suc l) (drop p d)"
    by auto
  show "p < length d" "d ! p \<noteq> 0" "0 \<notin> set r"
    using p z by auto
  show "strlen (drop p d) = Some (length r)"
    using l len by simp
  show "\<exists>t. drop p d = r @ 0 # t"
    using dec by blast
  show "records_at d (p + length r + 1) = Some (rs, e)"
    using rest len by simp
qed

lemma records_at_append:
  assumes "records_at d p = Some (before @ rs, e)"
  shows "records_at d (p + record_bytes before) = Some (rs, e)"
  using assms
proof (induction before arbitrary: p)
  case Nil
  then show ?case by (simp add: record_bytes_def)
next
  case (Cons r before)
  from records_at_Cons(6) [of d p r "before @ rs" e] Cons.prems
  have "records_at d (p + length r + 1) = Some (before @ rs, e)"
    by simp
  from Cons.IH [OF this] show ?case
    by (simp add: record_bytes_def add.assoc)
qed

lemma skip_records_records_at:
  assumes "records_at d p = Some (rs, e)"
  shows "skip_records d p = Inr e \<and> e = p + record_bytes rs \<and> e < length d \<and> d ! e = 0"
  using assms
proof (induction rs arbitrary: p)
  case Nil
  from records_at_Nil [OF Nil.prems] show ?case
    by (simp add: skip_records.simps [of d p] record_bytes_def)
next
  case (Cons r rs)
  note c = records_at_Cons [OF Cons.prems]
  from Cons.IH [OF c(6)] have a: "skip_records d (p + length r + 1) = Inr e"
    and b: "e = p + length r + 1 + record_bytes rs" and z: "e < length d \<and> d ! e = 0"
    by blast+
  from a c(1-3) have "skip_records d p = Inr e"
    by (simp add: skip_records.simps [of d p])
  moreover from b have "e = p + record_bytes (r # rs)"
    by (simp add: record_bytes_def)
  ultimately show ?case
    using z by blast
qed

lemma find_var_none:
  assumes "records_at d p = Some (rs, e)" and "0 \<notin> set nm" and "length nm = n"
    and "\<forall>r\<in>set rs. take n r \<noteq> nm"
  shows "find_var d (nm @ rest) n p = Inr None"
  using assms(1,4)
proof (induction rs arbitrary: p)
  case Nil
  from records_at_Nil [OF Nil.prems(1)] show ?case
    by (simp add: find_var.simps [of d _ n p])
next
  case (Cons r rs)
  note c = records_at_Cons [OF Cons.prems(1)]
  from c(5) obtain t where t: "drop p d = r @ 0 # t"
    by blast
  from strncmp_mem [OF assms(2,3) c(4), of t "rest @ [0]"] Cons.prems(2)
  obtain x where x: "strncmp (drop p d) ((nm @ rest) @ [0]) n = Some x" "x \<noteq> 0"
    using t by auto
  from Cons.prems(2) have "\<forall>r\<in>set rs. take n r \<noteq> nm"
    by simp
  from Cons.IH [OF c(6) this] x c(1-3) show ?case
    by (simp add: find_var.simps [of d _ n p])
qed

lemma find_var_found:
  assumes "records_at d p = Some (before @ m # tail, e)" and "0 \<notin> set nm" and "length nm = n"
    and "\<forall>r\<in>set before. take n r \<noteq> nm" and "take n m = nm"
  shows "find_var d (nm @ rest) n p = Inr (Some (p + record_bytes before))"
  using assms(1,4)
proof (induction before arbitrary: p)
  case Nil
  then have r: "records_at d p = Some (m # tail, e)"
    by simp
  note c = records_at_Cons [OF r]
  from c(5) obtain t where t: "drop p d = m @ 0 # t"
    by blast
  from strncmp_mem [OF assms(2,3) c(4), of t "rest @ [0]"] assms(5)
  have "strncmp (drop p d) ((nm @ rest) @ [0]) n = Some 0"
    using t by auto
  with c(1,2) show ?case
    by (simp add: find_var.simps [of d _ n p] record_bytes_def)
next
  case (Cons r before)
  then have r: "records_at d p = Some (r # (before @ m # tail), e)"
    by simp
  note c = records_at_Cons [OF r]
  from c(5) obtain t where t: "drop p d = r @ 0 # t"
    by blast
  from strncmp_mem [OF assms(2,3) c(4), of t "rest @ [0]"] Cons.prems(2)
  obtain x where x: "strncmp (drop p d) ((nm @ rest) @ [0]) n = Some x" "x \<noteq> 0"
    using t by auto
  from Cons.prems(2) have "\<forall>r\<in>set before. take n r \<noteq> nm"
    by simp
  from Cons.IH [OF c(6) this] x c(1-3) show ?case
    by (simp add: find_var.simps [of d _ n p] record_bytes_def add.assoc)
qed

lemma name_portion_split:
  assumes "0x3d \<in> set s"
  shows "\<exists>t. s = name_portion s @ 0x3d # t"
proof -
  let ?P = "\<lambda>c :: byte. c \<noteq> 0x3d"
  from assms have ne: "dropWhile ?P s \<noteq> []"
    by (auto simp: dropWhile_eq_Nil_conv)
  from hd_dropWhile [OF ne] have "hd (dropWhile ?P s) = 0x3d"
    by simp
  with ne obtain t where "dropWhile ?P s = 0x3d # t"
    by (cases "dropWhile ?P s") auto
  with takeWhile_dropWhile_id [of ?P s] show ?thesis
    by (metis name_portion_def)
qed

lemma name_portion_no_eq: "0x3d \<notin> set (name_portion s)"
  using set_takeWhileD [of "0x3d" "\<lambda>c. c \<noteq> 0x3d" s] by (auto simp: name_portion_def)

lemma name_portion_append: "0x3d \<notin> set nm \<Longrightarrow> name_portion (nm @ 0x3d # t) = nm"
proof -
  assume "0x3d \<notin> set nm"
  then have "takeWhile (\<lambda>c :: byte. c \<noteq> 0x3d) (nm @ 0x3d # t) = nm"
    by (intro takeWhile_stop) auto
  then show ?thesis
    by (simp add: name_portion_def)
qed

lemma take_name_eq:
  assumes "0x3d \<in> set cv"
  shows "take (length (name_portion cv) + 1) cv = name_portion cv @ [0x3d]"
proof -
  from name_portion_split [OF assms] obtain t where "cv = name_portion cv @ 0x3d # t"
    by blast
  then have "take (length (name_portion cv) + 1) cv
               = take (length (name_portion cv) + 1) (name_portion cv @ 0x3d # t)"
    by simp
  then show ?thesis
    by simp
qed

lemma take_eq_name_portion:
  assumes "take (length nm + 1) r = nm @ [0x3d]" and "0x3d \<notin> set nm"
  shows "name_portion r = nm"
proof -
  have "r = take (length nm + 1) r @ drop (length nm + 1) r"
    by simp
  with assms(1) have "r = nm @ 0x3d # drop (length nm + 1) r"
    by simp
  with name_portion_append [OF assms(2)] show ?thesis
    by metis
qed

lemma strstr_eq_name_portion:
  assumes "0 \<notin> set cv" and "0x3d \<in> set cv"
  shows "strstr_eq cv = Some (length (name_portion cv))"
proof -
  from assms(1) have tw: "takeWhile (\<lambda>c. c \<noteq> 0) cv = cv"
    by (auto simp: takeWhile_eq_all_conv)
  show ?thesis
    unfolding strstr_eq_def name_portion_def Let_def tw using assms(2) by simp
qed

lemma search_parts_header:
  "search_parts d sig name ps = Inr (Some ph) \<Longrightarrow> \<exists>phead. header_at d ph = Some phead"
  by (induction ps) (auto split: option.splits if_splits)

lemma config_var_split:
  assumes "0 \<notin> set config_var" and "0x3d \<in> set config_var"
  defines "nm \<equiv> name_portion config_var @ [0x3d]"
  shows "config_var = nm @ drop (length nm) config_var" and "0 \<notin> set nm"
    and "length nm = length (name_portion config_var) + 1"
proof -
  have t: "take (length (name_portion config_var) + 1) config_var = nm"
    unfolding nm_def by (rule take_name_eq [OF assms(2)])
  show l: "length nm = length (name_portion config_var) + 1"
    by (simp add: nm_def)
  from t l show "config_var = nm @ drop (length nm) config_var"
    by (metis append_take_drop_id)
  from t assms(1) show "0 \<notin> set nm"
    by (metis in_set_takeD)
qed

text \<open>
  Claim C3. When the named partition exists and none of its records (the null-terminated
  strings from the start of its payload up to the first empty one) has the name portion
  of the assignment, \<open>update_of_config_var\<close> returns -1 with the message that the config
  variable does not exist; it creates no variable: the structure and the file, offset
  included, are as before, whatever a write would have transferred.
\<close>

theorem update_missing_variable:
  assumes "nvram_find_partition nv 0 (Some pname) None = Inr (Some ph)"
    and "0 \<notin> set config_var" and "0x3d \<in> set config_var"
    and "records_at (data nv) (ph + 16) = Some (rs, e)"
    and "\<forall>r\<in>set rs. name_portion r \<noteq> name_portion config_var"
  shows "update_of_config_var nv fd config_var pname wres
           = Some (Inr (- 1, [E_var_does_not_exist], nv, fd))"
proof -
  define nm where "nm = name_portion config_var @ [0x3d]"
  define k where "k = length (name_portion config_var)"
  note s = config_var_split [OF assms(2,3), folded nm_def]
  from assms(1) obtain phead where h: "header_at (data nv) ph = Some phead"
    using search_parts_header by (fastforce simp: nvram_find_partition_def)
  have k: "strstr_eq config_var = Some k"
    unfolding k_def by (rule strstr_eq_name_portion [OF assms(2,3)])
  have "take (k + 1) r \<noteq> nm" if "r \<in> set rs" for r
  proof
    assume "take (k + 1) r = nm"
    then have "name_portion r = name_portion config_var"
      unfolding nm_def k_def by (rule take_eq_name_portion) (rule name_portion_no_eq)
    with assms(5) that show False
      by blast
  qed
  then have "\<forall>r\<in>set rs. take (k + 1) r \<noteq> nm"
    by blast
  from find_var_none [OF assms(4) s(2) _ this, of "drop (length nm) config_var"] s(1,3)
  have "find_var (data nv) config_var (k + 1) (ph + 16) = Inr None"
    by (simp add: k_def)
  with assms(1) h k show ?thesis
    by (simp add: update_of_config_var_def update_prepare_def Let_def)
qed

theorem update_missing_variable_witness:
  "nvram_find_partition cfg_nvram 0 (Some (bytes_of ''common'')) None = Inr (Some 0)
   \<and> 0 \<notin> set (bytes_of ''baz=22'') \<and> 0x3d \<in> set (bytes_of ''baz=22'')
   \<and> records_at (data cfg_nvram) (0 + 16) = Some ([bytes_of ''foo=1'', bytes_of ''bar=2''], 28)
   \<and> name_portion (bytes_of ''foo=1'') \<noteq> name_portion (bytes_of ''baz=22'')
   \<and> name_portion (bytes_of ''bar=2'') \<noteq> name_portion (bytes_of ''baz=22'')
   \<and> update_of_config_var cfg_nvram cfg_fd (bytes_of ''baz=22'') (bytes_of ''common'') 48
       = Some (Inr (- 1, [E_var_does_not_exist], cfg_nvram, cfg_fd))"
proof -
  have a: "nvram_find_partition cfg_nvram 0 (Some (bytes_of ''common'')) None = Inr (Some 0)"
    by code_simp
  have b: "0 \<notin> set (bytes_of ''baz=22'')" "0x3d \<in> set (bytes_of ''baz=22'')"
    by code_simp+
  have c: "records_at (data cfg_nvram) (0 + 16)
             = Some ([bytes_of ''foo=1'', bytes_of ''bar=2''], 28)"
    by code_simp
  have d: "\<forall>r\<in>set [bytes_of ''foo=1'', bytes_of ''bar=2''].
             name_portion r \<noteq> name_portion (bytes_of ''baz=22'')"
    by code_simp
  have d': "name_portion (bytes_of ''foo=1'') \<noteq> name_portion (bytes_of ''baz=22'')"
    "name_portion (bytes_of ''bar=2'') \<noteq> name_portion (bytes_of ''baz=22'')"
    using d by simp_all
  from update_missing_variable [OF a b c d, of cfg_fd 48] a b c d' show ?thesis
    by (simp only: simp_thms)
qed

text \<open>
  Claim C2. Let the named partition exist, let its records be \<open>before\<close>, the first record
  \<open>m\<close> with the name of the assignment, and \<open>tail\<close>, and let \<open>m\<close> start inside the partition.
  When the header, \<open>before\<close>, the new assignment and \<open>tail\<close> with the terminating empty
  string need more than the \<open>length * 16\<close> bytes of the partition,
  \<open>update_of_config_var\<close> returns -1 with one of its two "not enough room" messages, and
  the structure and the file, offset included, are as before: no write is attempted.
\<close>

theorem update_insufficient_space:
  assumes "nvram_find_partition nv 0 (Some pname) None = Inr (Some ph)"
    and "header_at (data nv) ph = Some phead"
    and "0 \<notin> set config_var" and "0x3d \<in> set config_var"
    and "records_at (data nv) (ph + 16) = Some (before @ m # tail, e)"
    and "\<forall>r\<in>set before. name_portion r \<noteq> name_portion config_var"
    and "name_portion m = name_portion config_var" and "0x3d \<in> set m"
    and "16 + record_bytes before \<le> unat (ph_length phead) * 16"
    and "unat (ph_length phead) * 16
           < 16 + record_bytes before + (length config_var + 1) + (record_bytes tail + 1)"
  shows "update_of_config_var nv fd config_var pname wres
           \<in> {Some (Inr (- 1, [E_no_room_for_var], nv, fd)),
              Some (Inr (- 1, [E_no_room_for_tail], nv, fd))}"
proof -
  define nm where "nm = name_portion config_var @ [0x3d]"
  define k where "k = length (name_portion config_var)"
  define d where "d = data nv"
  define doff where "doff = ph + 16 + record_bytes before"
  define part_size where "part_size = unat (ph_length phead) * 16"
  note s = config_var_split [OF assms(3,4), folded nm_def]
  have k: "strstr_eq config_var = Some k"
    unfolding k_def by (rule strstr_eq_name_portion [OF assms(3,4)])
  have nomatch: "\<forall>r\<in>set before. take (k + 1) r \<noteq> nm"
  proof
    fix r assume r: "r \<in> set before"
    show "take (k + 1) r \<noteq> nm"
    proof
      assume "take (k + 1) r = nm"
      then have "name_portion r = name_portion config_var"
        unfolding nm_def k_def by (rule take_eq_name_portion) (rule name_portion_no_eq)
      with assms(6) r show False
        by blast
    qed
  qed
  have match: "take (k + 1) m = nm"
    using take_name_eq [OF assms(8)] assms(7) by (simp add: nm_def k_def)
  from find_var_found [OF assms(5) s(2) _ nomatch match, of "drop (length nm) config_var"] s(1,3)
  have fv: "find_var d config_var (k + 1) (ph + 16) = Inr (Some doff)"
    by (simp add: k_def d_def doff_def)
  from records_at_append [OF assms(5)]
  have r1: "records_at d doff = Some (m # tail, e)"
    by (simp add: d_def doff_def add.assoc)
  note c = records_at_Cons [OF r1]
  from skip_records_records_at [OF c(6)]
  have sk: "skip_records d (doff + length m + 1) = Inr e"
    and e: "e = doff + length m + 1 + record_bytes tail" and z: "d ! e = 0"
    by blast+
  have cv: "takeWhile (\<lambda>c. c \<noteq> 0) config_var = config_var"
    using assms(3) by (auto simp: takeWhile_eq_all_conv)
  have off: "doff - ph = 16 + record_bytes before"
    by (simp add: doff_def)
  have "build_new_part d config_var ph part_size doff
          \<in> {Return (- 1) [E_no_room_for_var], Return (- 1) [E_no_room_for_tail]}"
    unfolding build_new_part_def Let_def cv off
    using assms(9,10) c(3) sk z e by (simp add: part_size_def)
  with assms(1,2) k fv show ?thesis
    by (auto simp: update_of_config_var_def update_prepare_def Let_def d_def part_size_def
        NVRAM_BLOCK_SIZE_def)
qed

theorem update_insufficient_space_witness:
  "nvram_find_partition cfg_nvram 0 (Some (bytes_of ''common'')) None = Inr (Some 0)
   \<and> header_at (data cfg_nvram) 0
       = Some \<lparr>ph_signature = 0x70, ph_checksum = 0, ph_length = 3,
                ph_name = bytes_of ''common'' @ [0, 0, 0, 0, 0, 0]\<rparr>
   \<and> 0 \<notin> set (bytes_of ''foo=012345678901234567890'')
   \<and> 0x3d \<in> set (bytes_of ''foo=012345678901234567890'')
   \<and> records_at (data cfg_nvram) (0 + 16) = Some ([] @ bytes_of ''foo=1'' # [bytes_of ''bar=2''], 28)
   \<and> name_portion (bytes_of ''foo=1'') = name_portion (bytes_of ''foo=012345678901234567890'')
   \<and> 0x3d \<in> set (bytes_of ''foo=1'')
   \<and> 16 + record_bytes [] \<le> unat (3 :: 16 word) * 16
   \<and> unat (3 :: 16 word) * 16
        < 16 + record_bytes [] + (length (bytes_of ''foo=012345678901234567890'') + 1)
            + (record_bytes [bytes_of ''bar=2''] + 1)
   \<and> update_of_config_var cfg_nvram cfg_fd (bytes_of ''foo=012345678901234567890'')
         (bytes_of ''common'') 48
       = Some (Inr (- 1, [E_no_room_for_tail], cfg_nvram, cfg_fd))"
proof -
  let ?cv = "bytes_of ''foo=012345678901234567890''"
  let ?h = "\<lparr>ph_signature = 0x70, ph_checksum = 0, ph_length = 3,
                ph_name = bytes_of ''common'' @ [0, 0, 0, 0, 0, 0]\<rparr>"
  have a: "nvram_find_partition cfg_nvram 0 (Some (bytes_of ''common'')) None = Inr (Some 0)"
    by code_simp
  have h: "header_at (data cfg_nvram) 0 = Some ?h"
    by code_simp
  have b: "0 \<notin> set ?cv" "0x3d \<in> set ?cv"
    by code_simp+
  have c: "records_at (data cfg_nvram) (0 + 16)
             = Some ([] @ bytes_of ''foo=1'' # [bytes_of ''bar=2''], 28)"
    by code_simp
  have d: "\<forall>r\<in>set []. name_portion r \<noteq> name_portion ?cv"
    by simp
  have m: "name_portion (bytes_of ''foo=1'') = name_portion ?cv" "0x3d \<in> set (bytes_of ''foo=1'')"
    by code_simp+
  have i: "16 + record_bytes [] \<le> unat (ph_length ?h) * 16"
    by code_simp
  have n: "unat (ph_length ?h) * 16
        < 16 + record_bytes [] + (length ?cv + 1) + (record_bytes [bytes_of ''bar=2''] + 1)"
    by code_simp
  have r: "update_of_config_var cfg_nvram cfg_fd ?cv (bytes_of ''common'') 48
             \<noteq> Some (Inr (- 1, [E_no_room_for_var], cfg_nvram, cfg_fd))"
    by code_simp
  from update_insufficient_space [OF a h b c d m i n, of cfg_fd 48] r
  have "update_of_config_var cfg_nvram cfg_fd ?cv (bytes_of ''common'') 48
          = Some (Inr (- 1, [E_no_room_for_tail], cfg_nvram, cfg_fd))"
    by blast
  with a h b c m i n show ?thesis
    by simp
qed

lemma build_new_part_length:
  assumes "build_new_part d config_var ph part_size data_offset = Continue new_part"
  shows "length new_part = part_size"
  using assms unfolding build_new_part_def Let_def
  by (auto split: if_splits option.splits sum.splits)

lemma update_prepare_Ready:
  assumes "update_prepare nv fd config_var pname = Some (Ready new_part part_size ms fd1)"
  shows "\<exists>ph phead. nvram_find_partition nv 0 (Some pname) None = Inr (Some ph)
           \<and> header_at (data nv) ph = Some phead
           \<and> part_size = unat (ph_length phead) * 16
           \<and> length new_part = part_size"
proof -
  from assms obtain ph where ph: "nvram_find_partition nv 0 (Some pname) None = Inr (Some ph)"
    by (cases "nvram_find_partition nv 0 (Some pname) None")
      (auto simp: update_prepare_def split: option.splits)
  with assms obtain phead where h: "header_at (data nv) ph = Some phead"
    by (cases "header_at (data nv) ph") (auto simp: update_prepare_def)
  from assms ph h obtain k where k: "strstr_eq config_var = Some k"
    by (cases "strstr_eq config_var") (auto simp: update_prepare_def Let_def)
  from assms ph h k obtain doff where
    f: "find_var (data nv) config_var (k + 1) (ph + 16) = Inr (Some doff)"
    by (cases "find_var (data nv) config_var (k + 1) (ph + 16)")
      (auto simp: update_prepare_def Let_def split: option.splits)
  from assms ph h k f have
    b: "build_new_part (data nv) config_var ph (unat (ph_length phead) * 16) doff = Continue new_part"
    and p: "part_size = unat (ph_length phead) * 16"
    by (auto simp: update_prepare_def Let_def NVRAM_BLOCK_SIZE_def
        split: step.splits option.splits sum.splits if_splits)
  from build_new_part_length [OF b] ph h p show ?thesis
    by auto
qed

text \<open>
  Claim C10. When \<open>update_of_config_var\<close> reaches its \<^verbatim>\<open>write\<close> (of \<open>part_size\<close> bytes, which
  is \<open>length * 16\<close> of the named partition and the size of the new image) and the write
  transfers fewer bytes, \<open>wres < part_size\<close>, the function adds the "only wrote" message
  and returns 0, the value it also returns when the write is complete.
\<close>

theorem update_short_write_returns_success:
  assumes "update_prepare nv fd config_var pname = Some (Ready new_part part_size ms fd1)"
    and "wres < int part_size"
  shows "update_of_config_var nv fd config_var pname wres
           = Some (Inr (0, ms @ [E_only_wrote wres part_size], nv, write_fd fd1 new_part wres))
    \<and> update_of_config_var nv fd config_var pname (int part_size)
           = Some (Inr (0, ms, nv, write_fd fd1 new_part (int part_size)))
    \<and> (\<exists>ph phead. nvram_find_partition nv 0 (Some pname) None = Inr (Some ph)
           \<and> header_at (data nv) ph = Some phead
           \<and> part_size = unat (ph_length phead) * 16
           \<and> length new_part = part_size)"
proof -
  from assms have "update_of_config_var nv fd config_var pname wres
           = Some (Inr (0, ms @ [E_only_wrote wres part_size], nv, write_fd fd1 new_part wres))"
    by (simp add: update_of_config_var_def Let_def)
  moreover from assms(1) have "update_of_config_var nv fd config_var pname (int part_size)
           = Some (Inr (0, ms, nv, write_fd fd1 new_part (int part_size)))"
    by (simp add: update_of_config_var_def Let_def)
  ultimately show ?thesis
    using update_prepare_Ready [OF assms(1)] by blast
qed

theorem update_short_write_returns_success_witness:
  "update_prepare cfg_nvram cfg_fd (bytes_of ''foo=22'') (bytes_of ''common'')
     = Some (Ready ([0x70, 0xfe, 0, 3] @ bytes_of ''common'' @ [0, 0, 0, 0, 0, 0]
               @ bytes_of ''foo=22'' @ [0] @ bytes_of ''bar=2'' @ [0, 0] @ replicate 18 0)
             48 [] cfg_fd)
   \<and> (20 :: int) < int 48
   \<and> update_of_config_var cfg_nvram cfg_fd (bytes_of ''foo=22'') (bytes_of ''common'') 20
       = Some (Inr (0, [E_only_wrote 20 48], cfg_nvram,
                    \<lparr>fcontent = [0x70, 0xfe, 0, 3] @ drop 4 cfg_image, fpos = 20\<rparr>))
   \<and> update_of_config_var cfg_nvram cfg_fd (bytes_of ''foo=22'') (bytes_of ''common'') 48
       = Some (Inr (0, [], cfg_nvram,
                    \<lparr>fcontent = [0x70, 0xfe, 0, 3] @ bytes_of ''common'' @ [0, 0, 0, 0, 0, 0]
                        @ bytes_of ''foo=22'' @ [0] @ bytes_of ''bar=2'' @ [0, 0] @ replicate 18 0,
                      fpos = 48\<rparr>))"
proof -
  let ?img = "[0x70, 0xfe, 0, 3] @ bytes_of ''common'' @ [0, 0, 0, 0, 0, 0]
               @ bytes_of ''foo=22'' @ [0] @ bytes_of ''bar=2'' @ [0, 0] @ replicate 18 0"
  have p: "update_prepare cfg_nvram cfg_fd (bytes_of ''foo=22'') (bytes_of ''common'')
     = Some (Ready ?img 48 [] cfg_fd)"
    by code_simp
  have s: "(20 :: int) < int 48"
    by simp
  have w1: "write_fd cfg_fd ?img 20 = \<lparr>fcontent = [0x70, 0xfe, 0, 3] @ drop 4 cfg_image, fpos = 20\<rparr>"
    by code_simp
  have w2: "write_fd cfg_fd ?img 48 = \<lparr>fcontent = ?img, fpos = 48\<rparr>"
    by code_simp
  from update_short_write_returns_success [OF p s] p w1 w2
  show ?thesis
    by simp
qed

subsection \<open>dump_vpd\<close>

text \<open>
  Claim C6 does not hold of the code. When the byte at \<open>p\<close>, before \<open>p_end\<close>, is neither 0x82
  nor 0, the loop of \<open>dump_vpd\<close> takes neither branch of its body and tests the same byte
  again: it never returns, and the warning about an unknown descriptor byte that follows
  the loop is never reached.
\<close>

theorem vpd_unknown_descriptor_never_returns:
  assumes "p < length d" and "d ! p \<noteq> 0x82" and "d ! p \<noteq> 0" and "p < p_end"
  shows "vpd_loop descs d show_all p_end p out = None"
proof -
  define stuck :: "(byte list \<times> byte list) list \<Rightarrow> byte list \<Rightarrow> bool \<Rightarrow> nat \<Rightarrow> nat
      \<Rightarrow> byte list list \<Rightarrow> fault + nat \<times> byte list list \<Rightarrow> bool"
    where "stuck = (\<lambda>descs d show_all p_end p out y.
                     \<not> (p < length d \<and> d ! p \<noteq> 0x82 \<and> d ! p \<noteq> 0 \<and> p < p_end))"
  have "stuck descs' d' show_all' p_end' p' out' y"
    if "vpd_loop descs' d' show_all' p_end' p' out' = Some y" for descs' d' show_all' p_end' p' out' y
    apply (rule vpd_loop.raw_induct [where P = stuck, OF _ that])
    subgoal premises prems for f descs d show_all p_end p out y
    proof -
      have "False" if s: "p < length d" "d ! p \<noteq> 0x82" "d ! p \<noteq> 0" "p < p_end"
      proof -
        from prems(2) s have "f descs d show_all p_end p out = Some y"
          by simp
        from prems(1) [OF this] s show False
          by (simp add: stuck_def)
      qed
      then show ?thesis
        by (auto simp: stuck_def)
    qed
    done
  note ns = this
  show ?thesis
  proof (cases "vpd_loop descs d show_all p_end p out")
    case None
    then show ?thesis .
  next
    case (Some y)
    from ns [OF Some] assms show ?thesis
      by (simp add: stuck_def)
  qed
qed

theorem vpd_unknown_descriptor_never_returns_witness:
  "16 < length (data vpd_unknown) \<and> data vpd_unknown ! 16 \<noteq> 0x82 \<and> data vpd_unknown ! 16 \<noteq> 0
   \<and> (16 :: nat) < 32
   \<and> dump_vpd 0x52 [] vpd_unknown False = None"
proof -
  have a: "16 < length (data vpd_unknown)" "data vpd_unknown ! 16 \<noteq> 0x82"
    "data vpd_unknown ! 16 \<noteq> 0" "(16 :: nat) < 32"
    by code_simp+
  have f: "nvram_find_partition vpd_unknown 0x52 (Some (bytes_of ''ibm,vpd'')) None = Inr (Some 0)"
    by code_simp
  have h: "header_at (data vpd_unknown) 0
             = Some \<lparr>ph_signature = 0x52, ph_checksum = 0, ph_length = 2,
                      ph_name = bytes_of ''ibm,vpd'' @ [0, 0, 0, 0, 0]\<rparr>"
    by code_simp
  from vpd_unknown_descriptor_never_returns [OF a, of "[]" False "[]"] f h
  have "dump_vpd 0x52 [] vpd_unknown False = None"
    by (simp add: dump_vpd_def)
  with a show ?thesis
    by simp
qed

lemma vpd_loop_fills_payload:
  fixes pre s :: "byte list"
  assumes "length s = unat lo + unat hi * 256" and "length s < 4096"
  shows "vpd_loop descs (pre @ [0x82, lo, hi] @ s @ [0x79, c]) show_all
             (length pre + length s + 5) (length pre) out
           = Some (Inl OutOfBoundsRead)"
proof -
  define d where "d = pre @ [0x82, lo, hi] @ s @ [0x79, c]"
  define p where "p = length pre"
  define q where "q = p + 3 + length s"
  define p_end where "p_end = length pre + length s + 5"
  have len: "length d = q + 2"
    by (simp add: d_def p_def q_def)
  have h: "d ! p = 0x82" "d ! (p + 1) = lo" "d ! (p + 1 + 1) = hi"
    by (simp_all add: d_def p_def nth_append)
  have t: "d ! q = 0x79"
    by (simp add: d_def p_def q_def nth_append)
  have dr: "take (length s) (drop (p + 1 + 2) d) = s"
    by (simp add: d_def p_def)
  have g: "getvalue d (p + 1) = Inr (q, s)"
    using h(2,3) len dr assms unfolding getvalue_def Let_def
    by (simp add: q_def)
  have b: "vpd_blocks descs d show_all q out' = Inr (q, out')" for out'
    using t len by (simp add: vpd_blocks.simps [of descs d show_all q])
  have e: "vpd_loop descs d show_all p_end (q + 2) out' = Some (Inl OutOfBoundsRead)" for out'
    using len by (subst vpd_loop.simps) simp
  have pe: "p < p_end" "q + 2 = p_end"
    by (simp_all add: p_def p_end_def q_def)
  have "vpd_loop descs d show_all p_end p out
          = (case getvalue d (p + 1) of
               Inl f \<Rightarrow> Some (Inl f)
             | Inr (p1, v) \<Rightarrow>
                 (case vpd_blocks descs d show_all p1 (out @ [c_str v @ [0x0a]]) of
                    Inl f \<Rightarrow> Some (Inl f)
                  | Inr (p2, out') \<Rightarrow> vpd_loop descs d show_all p_end (p2 + 2) out'))"
    using h(1) len pe(1) by (subst vpd_loop.simps) (simp add: q_def)
  also have "\<dots> = Some (Inl OutOfBoundsRead)"
    by (simp only: g b e sum.case prod.case)
  finally show ?thesis
    by (simp add: d_def p_def p_end_def)
qed

text \<open>
  Claim C5 does not hold of the code. \<open>dump_vpd\<close> reads \<open>*p\<close> before it compares \<open>p\<close> with
  \<open>p_end\<close>, and \<open>getvalue\<close>, \<open>getsmallvalue\<close> and the loop over the keyword blocks never
  compare with \<open>p_end\<close>. When the payload is the tag 0x82, the two-byte length of a string
  of fewer than 4096 bytes, the string, the end tag 0x79 and the checksum byte, and ends
  with that byte at its declared end, the loop goes on to read the byte at the declared
  end; when the declared end is the end of the store, that byte is outside the buffer.
\<close>

theorem vpd_reads_at_declared_end:
  assumes "length s = unat lo + unat hi * 256" and "length s < 4096"
    and "p_end = length pre + length s + 5"
  shows "length (pre @ [0x82, lo, hi] @ s @ [0x79, c]) = p_end
       \<and> vpd_loop descs (pre @ [0x82, lo, hi] @ s @ [0x79, c]) show_all p_end (length pre) out
           = Some (Inl OutOfBoundsRead)"
  using vpd_loop_fills_payload [OF assms(1,2), where pre = pre and descs = descs and c = c
      and show_all = show_all and out = out] assms(3)
  by simp

theorem vpd_reads_at_declared_end_witness:
  "length (bytes_of ''IBM,7028-6E'') = unat (11 :: byte) + unat (0 :: byte) * 256
   \<and> length (bytes_of ''IBM,7028-6E'') < 4096
   \<and> (32 :: nat) = length vpd_header + length (bytes_of ''IBM,7028-6E'') + 5
   \<and> length (data vpd_full) = 32
   \<and> dump_vpd 0x52 [] vpd_full False = Some (Inl OutOfBoundsRead)"
proof -
  have a: "length (bytes_of ''IBM,7028-6E'') = unat (11 :: byte) + unat (0 :: byte) * 256"
    "length (bytes_of ''IBM,7028-6E'') < 4096"
    "(32 :: nat) = length vpd_header + length (bytes_of ''IBM,7028-6E'') + 5"
    by (simp_all add: bytes_of_def vpd_header_def)
  have d: "data vpd_full = vpd_header @ [0x82, 11, 0] @ bytes_of ''IBM,7028-6E'' @ [0x79, 0xaa]"
    by (simp add: vpd_full_def vpd_nvram_def)
  have l: "length vpd_header = 16"
    by (simp add: vpd_header_def bytes_of_def)
  have f: "nvram_find_partition vpd_full 0x52 (Some (bytes_of ''ibm,vpd'')) None = Inr (Some 0)"
    by code_simp
  have h: "header_at (data vpd_full) 0
             = Some \<lparr>ph_signature = 0x52, ph_checksum = 0, ph_length = 2,
                      ph_name = bytes_of ''ibm,vpd'' @ [0, 0, 0, 0, 0]\<rparr>"
    by code_simp
  from vpd_reads_at_declared_end [OF a, where descs = "[]" and c = "0xaa" and show_all = False
      and out = "[]"]
  have v: "length (data vpd_full) = 32"
    "vpd_loop [] (data vpd_full) False 32 16 [] = Some (Inl OutOfBoundsRead)"
    by (simp_all only: d l)
  from v(2) f h have "dump_vpd 0x52 [] vpd_full False = Some (Inl OutOfBoundsRead)"
    by (simp add: dump_vpd_def)
  with a v(1) show ?thesis
    by (simp only: simp_thms)
qed

text \<open>
  On the 5 bytes 0x82, 0x02, 'I', 'D', 0x79 the code takes 0x02 and 'I' for the length
  0x4902 of the identification string, which \<open>getvalue\<close> reads in two bytes, and copies
  that many bytes, past the 5 bytes and their declared end; no line is printed. The same
  happens when the 5 bytes are the start of the 16-byte payload of an ibm,vpd partition.
\<close>

lemma vpd_five_byte_example:
  "vpd_loop [] [0x82, 0x02, 0x49, 0x44, 0x79] False 5 0 [] = Some (Inl OutOfBoundsRead)
   \<and> dump_vpd 0x52 [] (vpd_nvram [0x82, 0x02, 0x49, 0x44, 0x79, 0, 0, 0, 0, 0, 0, 0, 0, 0, 0, 0]) False
       = Some (Inl OutOfBoundsRead)"
  by code_simp

subsection \<open>dump_errlog\<close>

lemma resolve_offset_outside:
  "p_max \<le> int (unat w div 2 + 1 + i) \<Longrightarrow> resolve_offset p_max i w = None"
  by (simp add: resolve_offset_def Let_def)

lemma resolve_offset_inside:
  "int (unat w div 2 + 1 + i) < p_max \<Longrightarrow> resolve_offset p_max i w = Some (unat w div 2 + 1 + i)"
  by (simp add: resolve_offset_def Let_def)

lemma resolve_offset_in_span: "in_span p_max (resolve_offset p_max i w)"
  by (simp add: in_span_def resolve_offset_def Let_def)

lemma read_offset_in_span: "read_offset d p p_max i = Inr r \<Longrightarrow> in_span p_max r"
  by (auto simp: read_offset_def resolve_offset_in_span split: sum.splits)

lemma read_cpu_offsets_in_span:
  assumes "read_cpu_offsets d p p_max MAX_CPUS i cpu n regs = Inr (i', regs')"
    and "\<forall>r\<in>set regs. in_span p_max r"
  shows "\<forall>r\<in>set regs'. in_span p_max r"
  using assms
proof (induction n arbitrary: i cpu regs)
  case 0
  then show ?case by simp
next
  case (Suc n)
  show ?case
  proof (cases "cpu < MAX_CPUS")
    case False
    with Suc.prems(1)
    have "read_cpu_offsets d p p_max MAX_CPUS (i + 1) (cpu + 1) n regs = Inr (i', regs')"
      by simp
    from Suc.IH [OF this Suc.prems(2)] show ?thesis .
  next
    case True
    with Suc.prems(1) obtain r where r: "read_offset d p p_max (i + 1) = Inr r"
      and rec: "read_cpu_offsets d p p_max MAX_CPUS (i + 1) (cpu + 1) n (regs @ [r]) = Inr (i', regs')"
      by (auto split: sum.splits)
    from read_offset_in_span [OF r] Suc.prems(2) have "\<forall>x\<in>set (regs @ [r]). in_span p_max x"
      by simp
    from Suc.IH [OF rec this] show ?thesis .
  qed
qed

lemma read_controllers_in_span:
  "read_controllers d p p_max i = Inr (n, r) \<Longrightarrow> in_span p_max r"
  by (auto simp: read_controllers_def split: sum.splits dest: read_offset_in_span)

lemma read_cpu_offsets_in_span_start:
  "read_cpu_offsets d p p_max MAX_CPUS i cpu n [] = Inr (i', regs) \<Longrightarrow> r \<in> set regs
     \<Longrightarrow> in_span p_max r"
  using read_cpu_offsets_in_span [of d p p_max MAX_CPUS i cpu n "[]" i' regs] by simp

lemma read_errlog_header_in_span:
  assumes "read_errlog_header d p p_max MAX_CPUS = Inr h"
  shows "in_span p_max (sys_regs h) \<and> (\<forall>r\<in>set (cpu_regs h). in_span p_max r)
       \<and> in_span p_max (memctrl_data h) \<and> in_span p_max (ioctrl_data h)"
  using assms unfolding read_errlog_header_def
  by (auto split: sum.splits prod.splits simp del: One_nat_def
      dest: read_offset_in_span read_controllers_in_span read_cpu_offsets_in_span_start)

lemma dump_sys_regs_absent: "sys_regs h = None \<Longrightarrow> dump_sys_regs h n = Inr []"
  by (simp add: dump_sys_regs_def)

text \<open>
  Claim C9 does not hold of the code. The offsets are resolved as the claim says
  (\<open>read_errlog_header_in_span\<close>: a pointer that is not null lies inside the payload), and
  an absent block of system registers is skipped (\<open>dump_sys_regs_absent\<close>). The loop over
  the CPU blocks has no such test: when the pointer of one of the CPUs it visits is null
  it still computes the length of that block from the null pointer, which is undefined,
  instead of skipping the block.
\<close>

theorem errlog_absent_cpu_block_not_skipped:
  assumes "cpu \<le> k" and "k < cpu + n" and "regs ! k = None"
  shows "dump_cpu_regs regs cpu n out = Inl NullPointer"
  using assms
proof (induction n arbitrary: cpu out)
  case 0
  then show ?case by simp
next
  case (Suc n)
  show ?case
  proof (cases "k = cpu")
    case True
    with Suc.prems(3) show ?thesis
      by (simp add: ptr_diff_def split: option.splits)
  next
    case False
    with Suc.prems have k: "cpu + 1 \<le> k" "k < cpu + 1 + n"
      by simp_all
    have "dump_cpu_regs regs (cpu + 1) n out' = Inl NullPointer" for out'
      by (rule Suc.IH [OF k Suc.prems(3)])
    then show ?thesis
      by (auto simp: ptr_diff_def split: option.splits sum.splits)
  qed
qed

theorem errlog_absent_cpu_block_not_skipped_witness:
  "(0 :: nat) \<le> 0 \<and> (0 :: nat) < 0 + 1 \<and> [None, Some (13 :: nat)] ! 0 = None
   \<and> read_errlog_header (data errlog_absent_cpu) 16 16 128
       = Inr \<lparr>checkstop_count = 0, sys_regs = Some 9, num_cpus = 1, cpu_regs = [None],
              num_memctrls = 0, memctrl_data = Some 6, num_ioctrls = 0, ioctrl_data = Some 13\<rparr>
   \<and> dump_cpu_regs [None, Some 13] 0 1 [] = Inl NullPointer
   \<and> dump_errlog 0x02 128 errlog_absent_cpu = Inl NullPointer"
proof -
  let ?h = "\<lparr>checkstop_count = 0, sys_regs = Some 9, num_cpus = 1, cpu_regs = [None],
              num_memctrls = 0, memctrl_data = Some 6, num_ioctrls = 0, ioctrl_data = Some 13\<rparr>"
  define d where "d = data errlog_absent_cpu"
  have a: "(0 :: nat) \<le> 0" "(0 :: nat) < 0 + 1" "[None, Some (13 :: nat)] ! 0 = None"
    by simp_all
  have f: "nvram_find_partition errlog_absent_cpu 0x02 (Some (bytes_of ''ibm,err-log'')) None
             = Inr (Some 0)"
    by code_simp
  have ph: "header_at d 0 = Some \<lparr>ph_signature = 0x02, ph_checksum = 0, ph_length = 3,
                      ph_name = bytes_of ''ibm,err-log'' @ [0]\<rparr>"
    unfolding d_def by code_simp
  have r: "read16 d 16 0 = Inr 0" "read16 d 16 1 = Inr 14" "read16 d 16 2 = Inr 1"
    "read16 d 16 3 = Inr 0x40" "read16 d 16 4 = Inr 0" "read16 d 16 5 = Inr 0"
    "read16 d 16 6 = Inr 0" "read16 d 16 7 = Inr 10"
    unfolding d_def by code_simp+
  have r1: "read16 d 16 (Suc 0) = Inr 14"
    using r(2) by simp
  have o: "read_offset d 16 16 1 = Inr (Some 9)" "read_offset d 16 16 3 = Inr None"
    "read_offset d 16 16 5 = Inr (Some 6)" "read_offset d 16 16 7 = Inr (Some 13)"
    by (simp_all add: read_offset_def r r1 resolve_offset_def)
  have c: "read_cpu_offsets d 16 16 128 2 0 1 [] = Inr (3, [None])"
    by (simp add: o)
  have m: "read_controllers d 16 16 3 = Inr (0, Some 6)" "read_controllers d 16 16 5 = Inr (0, Some 13)"
    by (simp_all add: read_controllers_def r o)
  have hd: "read_errlog_header d 16 16 128 = Inr ?h"
    unfolding read_errlog_header_def by (simp add: r o c m del: One_nat_def)
  from errlog_absent_cpu_block_not_skipped [OF a, of "[]"]
  have dc: "dump_cpu_regs [None, Some 13] 0 1 [] = Inl NullPointer" .
  have ds: "dump_sections ?h 128 = Inl NullPointer"
    by (simp add: dump_sections_def dump_sys_regs_def ptr_diff_def)
  have "dump_errlog 0x02 128 errlog_absent_cpu = Inl NullPointer"
    unfolding dump_errlog_def f
    by (simp add: ph [unfolded d_def] hd [unfolded d_def] ds del: One_nat_def)
  with a hd dc show ?thesis
    by (simp add: d_def del: One_nat_def)
qed

end
